theory Spec2Isabelle
  imports Complex_Main "HOL-Library.Multiset" "HOL-Library.Monad_Syntax"
begin

section \<open>JavaScript values used by the server code\<close>

subsection \<open>Strings\<close>

text \<open>
  Strings are byte lists. \<open>toLowerCase\<close> and \<open>trim\<close> are modelled on ASCII: the letters
  A to Z are lowered, and the white space stripped is tab, line feed, vertical tab, form
  feed, carriage return and space.
\<close>

definition lower_char :: "char \<Rightarrow> char" where
  "lower_char c = (let n = (of_char c :: nat) in if 65 \<le> n \<and> n \<le> 90 then char_of (n + 32) else c)"

definition toLowerCase :: "string \<Rightarrow> string" where
  "toLowerCase s = map lower_char s"

definition is_space :: "char \<Rightarrow> bool" where
  "is_space c = (let n = (of_char c :: nat) in (9 \<le> n \<and> n \<le> 13) \<or> n = 32)"

definition trim :: "string \<Rightarrow> string" where
  "trim s = rev (dropWhile is_space (rev (dropWhile is_space s)))"

fun starts_with :: "string \<Rightarrow> string \<Rightarrow> bool" where
  "starts_with s [] = True"
| "starts_with [] (c # cs) = False"
| "starts_with (d # ds) (c # cs) = (d = c \<and> starts_with ds cs)"

text \<open>\<open>s.includes(sub)\<close>: \<open>sub\<close> occurs in \<open>s\<close> as a contiguous substring.\<close>

fun str_includes :: "string \<Rightarrow> string \<Rightarrow> bool" where
  "str_includes [] sub = (sub = [])"
| "str_includes (c # cs) sub = (starts_with (c # cs) sub \<or> str_includes cs sub)"

subsection \<open>Numbers\<close>

text \<open>
  A JavaScript number is an IEEE 754 double: a finite value, \<open>Infinity\<close>, \<open>-Infinity\<close>
  or \<open>NaN\<close>. A finite double is kept as the real number it denotes (the two zeros are
  one). The result of an arithmetic operation is the exact result rounded to the nearest
  double, ties to even, and an infinity when the magnitude reaches \<open>2^1024 - 2^970\<close>.
\<close>

datatype jsnum = Fin real | PInf | NInf | NaN

text \<open>The nearest integer, a tie going to the even one.\<close>

definition round_half_even :: "real \<Rightarrow> int" where
  "round_half_even q =
     (let f = \<lfloor>q\<rfloor>; r = q - of_int f
      in if r < 1 / 2 then f else if r > 1 / 2 then f + 1 else if even f then f else f + 1)"

text \<open>The integer logarithm to base 2 of a positive integer.\<close>

function ilog2 :: "int \<Rightarrow> int" where
  "ilog2 n = (if n < 2 then 0 else 1 + ilog2 (n div 2))"
  by pat_completeness auto

termination
  by (relation "measure nat") auto

declare ilog2.simps [simp del]

text \<open>
  The binade of a positive real \<open>a\<close>: the exponent \<open>e\<close> with \<open>2^e \<le> a < 2^(e+1)\<close>.
  The doubles of a binade are the multiples of \<open>2^(e-52)\<close>; below \<open>2^-1022\<close> (the
  subnormal range) they are the multiples of \<open>2^-1074\<close>.
\<close>

definition binade :: "real \<Rightarrow> int" where
  "binade a = (if a \<ge> 1 then ilog2 \<lfloor>a\<rfloor>
               else (let f = ilog2 \<lfloor>1 / a\<rfloor>
                     in if a = 2 powi (- f) then - f else - (f + 1)))"

definition ulp_exp :: "real \<Rightarrow> int" where
  "ulp_exp a = max (binade a) (- 1022) - 52"

definition round_grid :: "int \<Rightarrow> real \<Rightarrow> real" where
  "round_grid k x = of_int (round_half_even (x / 2 powi k)) * 2 powi k"

definition round_mag :: "real \<Rightarrow> real" where
  "round_mag a = (if a = 0 then 0 else round_grid (ulp_exp a) a)"

definition OVERFLOW_BOUND :: real where
  "OVERFLOW_BOUND = 2 ^ 1024 - 2 ^ 970"

definition round_fin :: "real \<Rightarrow> real" where
  "round_fin x = sgn x * round_mag \<bar>x\<bar>"

definition round_double :: "real \<Rightarrow> jsnum" where
  "round_double x =
     (if x \<ge> OVERFLOW_BOUND then PInf else if x \<le> - OVERFLOW_BOUND then NInf
      else Fin (round_fin x))"

text \<open>A decimal literal of the source denotes the double nearest to it.\<close>

definition lit :: "real \<Rightarrow> jsnum" where
  "lit r = round_double r"

fun js_neg :: "jsnum \<Rightarrow> jsnum" where
  "js_neg (Fin a) = Fin (- a)"
| "js_neg PInf = NInf"
| "js_neg NInf = PInf"
| "js_neg NaN = NaN"

fun js_add :: "jsnum \<Rightarrow> jsnum \<Rightarrow> jsnum" where
  "js_add (Fin a) (Fin b) = round_double (a + b)"
| "js_add NaN y = NaN"
| "js_add x NaN = NaN"
| "js_add PInf NInf = NaN"
| "js_add NInf PInf = NaN"
| "js_add PInf y = PInf"
| "js_add x PInf = PInf"
| "js_add NInf y = NInf"
| "js_add x NInf = NInf"

definition js_sub :: "jsnum \<Rightarrow> jsnum \<Rightarrow> jsnum" where
  "js_sub x y = js_add x (js_neg y)"

fun js_mul :: "jsnum \<Rightarrow> jsnum \<Rightarrow> jsnum" where
  "js_mul (Fin a) (Fin b) = round_double (a * b)"
| "js_mul NaN y = NaN"
| "js_mul x NaN = NaN"
| "js_mul (Fin a) y = (if a = 0 then NaN else if a > 0 then y else js_neg y)"
| "js_mul x (Fin b) = (if b = 0 then NaN else if b > 0 then x else js_neg x)"
| "js_mul PInf y = y"
| "js_mul NInf y = js_neg y"

fun js_div :: "jsnum \<Rightarrow> jsnum \<Rightarrow> jsnum" where
  "js_div (Fin a) (Fin b) =
     (if b = 0 then (if a = 0 then NaN else if a > 0 then PInf else NInf) else round_double (a / b))"
| "js_div NaN y = NaN"
| "js_div x NaN = NaN"
| "js_div (Fin a) y = Fin 0"
| "js_div PInf (Fin b) = (if b \<ge> 0 then PInf else NInf)"
| "js_div NInf (Fin b) = (if b \<ge> 0 then NInf else PInf)"
| "js_div x y = NaN"

fun js_abs :: "jsnum \<Rightarrow> jsnum" where
  "js_abs (Fin a) = Fin \<bar>a\<bar>"
| "js_abs PInf = PInf"
| "js_abs NInf = PInf"
| "js_abs NaN = NaN"

text \<open>\<open>x <= y\<close>; every comparison with \<open>NaN\<close> is false.\<close>

fun js_le :: "jsnum \<Rightarrow> jsnum \<Rightarrow> bool" where
  "js_le NaN y = False"
| "js_le x NaN = False"
| "js_le NInf y = True"
| "js_le x PInf = True"
| "js_le PInf y = False"
| "js_le x NInf = False"
| "js_le (Fin a) (Fin b) = (a \<le> b)"

fun js_lt :: "jsnum \<Rightarrow> jsnum \<Rightarrow> bool" where
  "js_lt NaN y = False"
| "js_lt x NaN = False"
| "js_lt PInf y = False"
| "js_lt x NInf = False"
| "js_lt NInf y = True"
| "js_lt x PInf = True"
| "js_lt (Fin a) (Fin b) = (a < b)"

definition js_ge :: "jsnum \<Rightarrow> jsnum \<Rightarrow> bool" where
  "js_ge x y = js_le y x"

definition js_gt :: "jsnum \<Rightarrow> jsnum \<Rightarrow> bool" where
  "js_gt x y = js_lt y x"

text \<open>\<open>Math.max(x, y)\<close> and \<open>Math.min(x, y)\<close>.\<close>

fun js_max :: "jsnum \<Rightarrow> jsnum \<Rightarrow> jsnum" where
  "js_max NaN y = NaN"
| "js_max x NaN = NaN"
| "js_max x y = (if js_le x y then y else x)"

fun js_min :: "jsnum \<Rightarrow> jsnum \<Rightarrow> jsnum" where
  "js_min NaN y = NaN"
| "js_min x NaN = NaN"
| "js_min x y = (if js_le x y then x else y)"

fun isFinite :: "jsnum \<Rightarrow> bool" where
  "isFinite (Fin a) = True"
| "isFinite x = False"

text \<open>Truthiness of a number, and \<open>x || d\<close> on numbers.\<close>

fun num_truthy :: "jsnum \<Rightarrow> bool" where
  "num_truthy (Fin a) = (a \<noteq> 0)"
| "num_truthy NaN = False"
| "num_truthy x = True"

definition num_or :: "jsnum \<Rightarrow> jsnum \<Rightarrow> jsnum" where
  "num_or x d = (if num_truthy x then x else d)"

subsection \<open>Parsed JSON and other untyped values\<close>

datatype jsval =
    JUndefined
  | JNull
  | JBool bool
  | JNum jsnum
  | JStr string
  | JArr "jsval list"
  | JObj "(string \<times> jsval) list"

text \<open>
  \<open>v?.key\<close>: the property of an object (the last binding of a repeated key, as
  \<open>JSON.parse\<close> keeps it), and \<open>undefined\<close> on anything else.
\<close>

fun get_field :: "jsval \<Rightarrow> string \<Rightarrow> jsval" where
  "get_field (JObj kvs) k = (case map_of (rev kvs) k of Some v \<Rightarrow> v | None \<Rightarrow> JUndefined)"
| "get_field v k = JUndefined"

fun truthy :: "jsval \<Rightarrow> bool" where
  "truthy JUndefined = False"
| "truthy JNull = False"
| "truthy (JBool b) = b"
| "truthy (JNum n) = num_truthy n"
| "truthy (JStr s) = (s \<noteq> [])"
| "truthy (JArr xs) = True"
| "truthy (JObj kvs) = True"

section \<open>Analysis normalisation (server/routes/memories.js)\<close>

subsection \<open>Theme vectors\<close>

record theme_entry =
  label :: string
  weight :: jsnum

record theme_vector =
  emotionalCore :: "theme_entry list"
  narrativeState :: "theme_entry list"
  relationalFocus :: "theme_entry list"
  temporalOrientation :: "theme_entry list"
  spatialIntimacy :: "theme_entry list"

text \<open>
  The callback of \<open>entries.map(...)\<close> in \<open>normalizeAxis\<close>: \<open>None\<close> is the \<open>null\<close> that
  \<open>filter(Boolean)\<close> removes afterwards.
\<close>

definition clean_entry :: "jsval \<Rightarrow> theme_entry option" where
  "clean_entry e =
     (let lbl = (case get_field e ''label'' of JStr s \<Rightarrow> trim s | _ \<Rightarrow> []);
          w = (case get_field e ''weight'' of JNum n \<Rightarrow> (if isFinite n then n else Fin 0) | _ \<Rightarrow> Fin 0)
      in if lbl \<noteq> [] then Some \<lparr>label = lbl, weight = js_max (Fin 0) w\<rparr> else None)"

definition cleaned_entries :: "jsval list \<Rightarrow> theme_entry list" where
  "cleaned_entries es = take 4 (List.map_filter clean_entry es)"

definition total_weight :: "theme_entry list \<Rightarrow> jsnum" where
  "total_weight cleaned = foldl (\<lambda>sum item. js_add sum (weight item)) (Fin 0) cleaned"

definition normalizeAxis :: "jsval \<Rightarrow> string \<Rightarrow> theme_entry list" where
  "normalizeAxis entries fallbackLabel =
     (case entries of
        JArr es \<Rightarrow>
          (let cleaned = cleaned_entries es;
               total = total_weight cleaned
           in if cleaned = [] \<or> js_le total (Fin 0)
              then [\<lparr>label = fallbackLabel, weight = Fin 1\<rparr>]
              else map (\<lambda>item. \<lparr>label = label item, weight = js_div (weight item) total\<rparr>) cleaned)
      | _ \<Rightarrow> [\<lparr>label = fallbackLabel, weight = Fin 1\<rparr>])"

definition normalizeThemeVector :: "jsval \<Rightarrow> theme_vector" where
  "normalizeThemeVector themeVector =
     \<lparr>emotionalCore = normalizeAxis (get_field themeVector ''emotionalCore'') ''memory'',
      narrativeState = normalizeAxis (get_field themeVector ''narrativeState'') ''unfinished'',
      relationalFocus = normalizeAxis (get_field themeVector ''relationalFocus'') ''self'',
      temporalOrientation = normalizeAxis (get_field themeVector ''temporalOrientation'') ''memory'',
      spatialIntimacy = normalizeAxis (get_field themeVector ''spatialIntimacy'') ''private''\<rparr>"

text \<open>The five axes with the property name and the fallback label of each.\<close>

definition axis_names :: "string list" where
  "axis_names = [''emotionalCore'', ''narrativeState'', ''relationalFocus'',
                 ''temporalOrientation'', ''spatialIntimacy'']"

definition axis_fallbacks :: "string list" where
  "axis_fallbacks = [''memory'', ''unfinished'', ''self'', ''memory'', ''private'']"

definition axes_of :: "theme_vector \<Rightarrow> theme_entry list list" where
  "axes_of tv = [emotionalCore tv, narrativeState tv, relationalFocus tv,
                 temporalOrientation tv, spatialIntimacy tv]"

text \<open>The sum of the weights of an axis, added left to right from 0.\<close>

definition sum_weights :: "theme_entry list \<Rightarrow> jsnum" where
  "sum_weights ax = foldl js_add (Fin 0) (map weight ax)"

text \<open>
  The data model's condition on an axis: not empty, at most 4 entries, and weights that sum
  to 1 within \<open>1e-9\<close>.
\<close>

definition axis_ok :: "theme_entry list \<Rightarrow> bool" where
  "axis_ok ax = (ax \<noteq> [] \<and> length ax \<le> 4 \<and>
     (case sum_weights ax of Fin s \<Rightarrow> \<bar>s - 1\<bar> \<le> 1 / 10 ^ 9 | _ \<Rightarrow> False))"

subsection \<open>The analysis object\<close>

record normalized_analysis =
  n_mood :: string
  n_tags :: "jsval list"
  n_color :: string
  n_themeVector :: theme_vector

text \<open>\<open>a || b\<close> on values.\<close>

definition js_or :: "jsval \<Rightarrow> jsval \<Rightarrow> jsval" where
  "js_or a b = (if truthy a then a else b)"

text \<open>\<open>typeof v === 'string' && v.trim() ? v.trim() : d\<close>.\<close>

definition trimmed_string_or :: "jsval \<Rightarrow> string \<Rightarrow> string" where
  "trimmed_string_or v d = (case v of JStr s \<Rightarrow> (if trim s \<noteq> [] then trim s else d) | _ \<Rightarrow> d)"

definition normalizeAnalysis :: "jsval \<Rightarrow> normalized_analysis" where
  "normalizeAnalysis analysis =
     (let moodRaw = js_or (js_or (js_or (get_field analysis ''mood'') (get_field analysis ''emotion''))
                                 (get_field analysis ''Mood'')) (get_field analysis ''Emotion'');
          mood = trimmed_string_or moodRaw ''Fragment'';
          tags = (case get_field analysis ''tags'' of
                    JArr ts \<Rightarrow> take 5 (filter truthy ts)
                  | _ \<Rightarrow> [JStr ''Raw'', JStr ''Unsorted'']);
          color = trimmed_string_or (get_field analysis ''color'') ''#FFFFFF''
      in \<lparr>n_mood = mood, n_tags = tags, n_color = color,
          n_themeVector = normalizeThemeVector (get_field analysis ''themeVector'')\<rparr>)"

subsection \<open>The offline placeholder\<close>

definition OFFLINE_MOODS :: "(string \<times> string) list" where
  "OFFLINE_MOODS =
     [(''Memory'', ''#9CA3AF''), (''Reflection'', ''#60A5FA''), (''Longing'', ''#A78BFA''),
      (''Quiet Joy'', ''#34D399''), (''Tension'', ''#F87171''), (''Relief'', ''#FBBF24''),
      (''Grief'', ''#6B7280''), (''Wonder'', ''#EC4899'')]"

definition unit_axis :: "string \<Rightarrow> jsval" where
  "unit_axis l = JArr [JObj [(''label'', JStr l), (''weight'', JNum (Fin 1))]]"

text \<open>
  \<open>getOfflineMood\<close>; the index \<open>Math.floor(Math.random() * OFFLINE_MOODS.length)\<close>, a
  number from 0 to 7, is the argument.
\<close>

definition getOfflineMood :: "nat \<Rightarrow> jsval" where
  "getOfflineMood i =
     (let random = OFFLINE_MOODS ! (i mod length OFFLINE_MOODS)
      in JObj [(''mood'', JStr (fst random)),
               (''tags'', JArr [JStr ''Offline'', JStr ''Auto-classified'']),
               (''color'', JStr (snd random)),
               (''themeVector'', JObj [(''emotionalCore'', unit_axis ''memory''),
                                       (''narrativeState'', unit_axis ''unfinished''),
                                       (''relationalFocus'', unit_axis ''self''),
                                       (''temporalOrientation'', unit_axis ''memory''),
                                       (''spatialIntimacy'', unit_axis ''private'')]),
               (''offlineMode'', JBool True)])"

text \<open>
  The analysis that reaches \<open>normalizeAnalysis\<close> in \<open>router.post('/')\<close>: the offline
  placeholder when the gate denies the call or the model call fails with a quota or limit
  message, the fixed fallback object on any other failure, and the parsed JSON otherwise.
\<close>

datatype classify_outcome =
    GateDenied nat
  | QuotaError nat
  | OtherError
  | Parsed jsval

definition PARSE_FALLBACK :: jsval where
  "PARSE_FALLBACK = JObj [(''mood'', JStr ''Memory''),
                          (''tags'', JArr [JStr ''Raw'', JStr ''Unsorted'']),
                          (''color'', JStr ''#CCCCCC'')]"

fun ingest_analysis :: "classify_outcome \<Rightarrow> jsval \<times> bool" where
  "ingest_analysis (GateDenied i) = (getOfflineMood i, True)"
| "ingest_analysis (QuotaError i) = (getOfflineMood i, True)"
| "ingest_analysis OtherError = (PARSE_FALLBACK, False)"
| "ingest_analysis (Parsed v) = (v, False)"

text \<open>
  The array that \<open>router.post('/')\<close> passes as \<open>tags\<close> to \<open>new Memory(...)\<close>.
\<close>

definition memory_tags :: "classify_outcome \<Rightarrow> jsval list" where
  "memory_tags oc = n_tags (normalizeAnalysis (fst (ingest_analysis oc)))"

text \<open>
  The schema of Memory declares \<open>tags\<close> as \<open>[String]\<close>, with no lower-casing or
  trimming option. When the document is built, Mongoose casts every element of the array
  to a string: \<open>null\<close> and \<open>undefined\<close> pass unchanged, a string is kept, an object with
  a non-empty string \<open>_id\<close> becomes that string, a boolean or a number becomes the result
  of its \<open>toString()\<close>, and an array or any other plain object is a cast error. The
  decimal rendering of a number, \<open>Number.prototype.toString\<close>, is the parameter
  \<open>numberToString\<close>; \<open>None\<close> is the cast error.
\<close>

fun castString :: "(jsnum \<Rightarrow> string) \<Rightarrow> jsval \<Rightarrow> jsval option" where
  "castString numberToString JUndefined = Some JUndefined"
| "castString numberToString JNull = Some JNull"
| "castString numberToString (JStr s) = Some (JStr s)"
| "castString numberToString (JBool b) = Some (JStr (if b then ''true'' else ''false''))"
| "castString numberToString (JNum n) = Some (JStr (numberToString n))"
| "castString numberToString (JArr xs) = None"
| "castString numberToString (JObj kvs) =
     (case get_field (JObj kvs) ''_id'' of
        JStr s \<Rightarrow> (if s \<noteq> [] then Some (JStr s) else None)
      | _ \<Rightarrow> None)"

fun cast_all :: "(jsnum \<Rightarrow> string) \<Rightarrow> jsval list \<Rightarrow> jsval list option" where
  "cast_all numberToString [] = Some []"
| "cast_all numberToString (v # vs) =
     (case castString numberToString v of
        None \<Rightarrow> None
      | Some c \<Rightarrow> map_option ((#) c) (cast_all numberToString vs))"

text \<open>
  The \<open>tags\<close> field of the Memory document that \<open>router.post('/')\<close> stores. A cast
  error makes \<open>newMemory.save()\<close> reject: the handler answers with status 500 and no
  memory is stored, which is \<open>None\<close>.
\<close>

definition stored_tags :: "(jsnum \<Rightarrow> string) \<Rightarrow> classify_outcome \<Rightarrow> jsval list option" where
  "stored_tags numberToString oc = cast_all numberToString (memory_tags oc)"

text \<open>
  The selection of \<open>reprocessOfflineMemories\<close>, \<open>Memory.find({ tags: 'offline' })\<close>: the
  stored array has an element equal to the string \<open>offline\<close>.
\<close>

definition sweep_selects :: "jsval list \<Rightarrow> bool" where
  "sweep_selects tags = (JStr ''offline'' \<in> set tags)"

text \<open>
  The data model's TagSet: at most 12 strings, each lower-cased, trimmed and non-empty.
\<close>

fun is_clean_tag :: "jsval \<Rightarrow> bool" where
  "is_clean_tag (JStr s) = (s \<noteq> [] \<and> toLowerCase s = s \<and> trim s = s)"
| "is_clean_tag v = False"

definition is_TagSet :: "jsval list \<Rightarrow> bool" where
  "is_TagSet tags = (length tags \<le> 12 \<and> list_all is_clean_tag tags)"

text \<open>The same without the lower-casing and the trimming: at most 12 non-empty strings.\<close>

fun is_nonempty_string :: "jsval \<Rightarrow> bool" where
  "is_nonempty_string (JStr s) = (s \<noteq> [])"
| "is_nonempty_string v = False"

definition is_nonempty_strings :: "jsval list \<Rightarrow> bool" where
  "is_nonempty_strings tags = (length tags \<le> 12 \<and> list_all is_nonempty_string tags)"

text \<open>Sample data: a stand-in for the rendering of numbers, and an answer with a padded tag.\<close>

definition sample_numberToString :: "jsnum \<Rightarrow> string" where
  "sample_numberToString n = ''7''"

definition padded_answer :: jsval where
  "padded_answer = JObj [(''mood'', JStr ''Calm''), (''tags'', JArr [JStr '' sea ''])]"

definition mixed_answer :: jsval where
  "mixed_answer = JObj [(''mood'', JStr ''Calm''),
                        (''tags'', JArr [JStr ''Sea'', JBool True, JNum (Fin 7), JNull])]"

definition object_answer :: jsval where
  "object_answer = JObj [(''mood'', JStr ''Calm''),
                         (''tags'', JArr [JStr ''sea'', JObj [(''name'', JStr ''night'')]])]"

subsection \<open>Auxiliary notions for stating the axis properties\<close>

text \<open>
  The entries that survive cleaning in \<open>normalizeAxis\<close> (none when the input is not an
  array).
\<close>

definition survivors :: "jsval \<Rightarrow> theme_entry list" where
  "survivors entries = (case entries of JArr es \<Rightarrow> cleaned_entries es | _ \<Rightarrow> [])"

fun fin_val :: "jsnum \<Rightarrow> real" where
  "fin_val (Fin r) = r"
| "fin_val x = 0"

text \<open>
  Two labelled entries of weight \<open>2^1023\<close> each, a finite double (about \<open>8.99e307\<close>):
  their sum is \<open>2^1024\<close>, which is \<open>Infinity\<close>.
\<close>

definition overflow_axis :: jsval where
  "overflow_axis = JArr [JObj [(''label'', JStr ''a''), (''weight'', JNum (Fin (2 ^ 1023)))],
                         JObj [(''label'', JStr ''b''), (''weight'', JNum (Fin (2 ^ 1023)))]]"

section \<open>Capability-budget gate (server/routes/memories.js, checkRateLimit)\<close>

text \<open>
  The two module-level variables \<open>requestCount\<close> and \<open>rateLimitResetTime\<close> are the
  state of the gate; \<open>Date.now()\<close> (integer milliseconds) is an input of every call.
  The call returns whether it is allowed together with the updated state.
\<close>

record gate =
  requestCount :: nat
  rateLimitResetTime :: int

text \<open>
  The state when the module is loaded: \<open>let requestCount = 0\<close> and
  \<open>let rateLimitResetTime = Date.now() + 60000\<close>, with the clock reading of the load.
\<close>

definition initial_gate :: "int \<Rightarrow> gate" where
  "initial_gate loaded = \<lparr>requestCount = 0, rateLimitResetTime = loaded + 60000\<rparr>"

definition checkRateLimit :: "int \<Rightarrow> gate \<Rightarrow> bool \<times> gate" where
  "checkRateLimit now g =
     (let g1 = (if now \<ge> rateLimitResetTime g
                then \<lparr>requestCount = 0, rateLimitResetTime = now + 60000\<rparr>
                else g)
      in if requestCount g1 \<ge> 14 then (False, g1)
         else (True, g1\<lparr>requestCount := requestCount g1 + 1\<rparr>))"

text \<open>A sequence of calls, at the given clock readings, threading the state.\<close>

fun acquire_all :: "int list \<Rightarrow> gate \<Rightarrow> bool list \<times> gate" where
  "acquire_all [] g = ([], g)"
| "acquire_all (t # ts) g =
     (case checkRateLimit t g of (ok, g1) \<Rightarrow>
        (case acquire_all ts g1 of (oks, g2) \<Rightarrow> (ok # oks, g2)))"

section \<open>Similarity primitives and the family-match scorer (server/routes/memories.js)\<close>

text \<open>
  \<open>normalizeTags\<close> begins by applying \<open>String(tag || '')\<close> to every element. The lists
  here hold the results of that conversion: for a string, which is what the schema type
  \<open>[String]\<close> stores, the string itself.
\<close>

definition normalizeTags :: "string list \<Rightarrow> string list" where
  "normalizeTags tags = take 12 (filter (\<lambda>t. t \<noteq> []) (map (\<lambda>tag. toLowerCase (trim tag)) tags))"

text \<open>\<open>new Set(xs)\<close>: the distinct elements in the order of their first occurrence.\<close>

definition js_Set :: "'a list \<Rightarrow> 'a list" where
  "js_Set xs = rev (remdups (rev xs))"

text \<open>
  A \<open>Map\<close> with string keys, as the list of its entries in insertion order: \<open>set\<close> on a
  present key replaces the value in place, on a new key appends.
\<close>

type_synonym 'v js_map = "(string \<times> 'v) list"

definition map_has :: "'v js_map \<Rightarrow> string \<Rightarrow> bool" where
  "map_has m k = (k \<in> fst ` set m)"

definition map_set :: "'v js_map \<Rightarrow> string \<Rightarrow> 'v \<Rightarrow> 'v js_map" where
  "map_set m k v = (if map_has m k then map (\<lambda>(k', v'). if k' = k then (k', v) else (k', v')) m
                    else m @ [(k, v)])"

text \<open>\<open>map.get(k) || 0\<close> on a map of numbers.\<close>

definition get_or0 :: "jsnum js_map \<Rightarrow> string \<Rightarrow> jsnum" where
  "get_or0 m k = (case map_of m k of Some v \<Rightarrow> num_or v (Fin 0) | None \<Rightarrow> Fin 0)"

text \<open>
  \<open>isValidEmbedding\<close>; \<open>None\<close> is a value that is not an array (\<open>null\<close>, \<open>undefined\<close>).
\<close>

definition isValidEmbedding :: "jsnum list option \<Rightarrow> bool" where
  "isValidEmbedding embedding =
     (case embedding of
        None \<Rightarrow> False
      | Some e \<Rightarrow>
          if length e < 8 then False
          else (let energy = foldl (\<lambda>sum v. js_add sum (js_abs (num_or v (Fin 0)))) (Fin 0) e
                in js_gt energy (Fin 0)))"

text \<open>
  The axes that reach \<open>axisToMap\<close> from the scorer are arrays of entries with a string label
  (they come from \<open>normalizeAxis\<close>), so of the checks of \<open>axisToMap\<close> the ones on the
  weight and on the emptiness of the label remain.
\<close>

definition axisToMap :: "theme_entry list \<Rightarrow> jsnum js_map" where
  "axisToMap axis =
     foldl (\<lambda>m entry.
              let lbl = toLowerCase (trim (label entry));
                  w = (if isFinite (weight entry) then weight entry else Fin 0)
              in if lbl = [] \<or> js_le w (Fin 0) then m
                 else map_set m lbl (js_add (get_or0 m lbl) w))
           [] axis"

definition axisSimilarity :: "theme_entry list \<Rightarrow> theme_entry list \<Rightarrow> jsnum" where
  "axisSimilarity leftAxis rightAxis =
     (let leftMap = axisToMap leftAxis;
          rightMap = axisToMap rightAxis
      in if leftMap = [] \<or> rightMap = [] then Fin 0
         else foldl (\<lambda>score (lbl, w). js_add score (js_mul w (get_or0 rightMap lbl)))
                    (Fin 0) leftMap)"

definition themeSimilarity :: "theme_vector \<Rightarrow> theme_vector \<Rightarrow> jsnum" where
  "themeSimilarity leftVector rightVector =
     (let scores = map (\<lambda>axis. axisSimilarity (axis leftVector) (axis rightVector))
                       [emotionalCore, narrativeState, relationalFocus,
                        temporalOrientation, spatialIntimacy];
          total = foldl js_add (Fin 0) scores
      in if length scores \<noteq> 0 then js_div total (Fin (real (length scores))) else Fin 0)"

definition tagSimilarity :: "string list \<Rightarrow> string list \<Rightarrow> jsnum" where
  "tagSimilarity leftTags rightTags =
     (let left = js_Set (normalizeTags leftTags);
          right = js_Set (normalizeTags rightTags)
      in if left = [] \<or> right = [] then Fin 0
         else (let intersection = int (length (filter (\<lambda>tag. tag \<in> set right) left));
                   union = int (length left) + int (length right) - intersection
               in if union \<noteq> 0 then js_div (Fin (real_of_int intersection)) (Fin (real_of_int union))
                  else Fin 0))"

record candidate =
  c_embedding :: "jsnum list"
  c_themeVector :: theme_vector
  c_tags :: "string list"

record family_profile =
  f_mood :: string
  f_embedding :: "jsnum list option"
  f_themeVector :: theme_vector
  f_tags :: "string list"

record match_components =
  embeddingScore :: jsnum
  themeScore :: jsnum
  tagScore :: jsnum
  hasEmbedding :: bool

record match_result =
  score :: jsnum
  components :: match_components

text \<open>
  \<open>scoreFamilyMatch\<close>. The function \<open>cosineSimilarity\<close> of the npm package
  \<open>cosine-similarity\<close> is not part of the repository; it is the parameter \<open>cs\<close>.
\<close>

definition scoreFamilyMatch ::
  "(jsnum list \<Rightarrow> jsnum list \<Rightarrow> jsnum) \<Rightarrow> candidate \<Rightarrow> family_profile \<Rightarrow> match_result" where
  "scoreFamilyMatch cs cand family =
     (let hasEmb = (isValidEmbedding (Some (c_embedding cand)) \<and> isValidEmbedding (f_embedding family));
          embScore = (if hasEmb
                      then (case f_embedding family of Some fe \<Rightarrow> cs (c_embedding cand) fe | None \<Rightarrow> Fin 0)
                      else Fin 0);
          thScore = themeSimilarity (c_themeVector cand) (f_themeVector family);
          tgScore = tagSimilarity (c_tags cand) (f_tags family);
          (w_e, w_t, w_g) = (if \<not> hasEmb then (Fin 0, lit (65 / 100), lit (35 / 100))
                             else (lit (6 / 10), lit (25 / 100), lit (15 / 100)));
          totalWeight = num_or (js_add (js_add w_e w_t) w_g) (Fin 1);
          sc = js_div (js_add (js_add (js_mul embScore w_e) (js_mul thScore w_t)) (js_mul tgScore w_g))
                      totalWeight
      in \<lparr>score = sc,
          components = \<lparr>embeddingScore = embScore, themeScore = thScore, tagScore = tgScore,
                        hasEmbedding = hasEmb\<rparr>\<rparr>)"

text \<open>
  The weighted mean of three values, each paired with its weight, as JavaScript computes
  it from left to right: the sum of the products divided by the sum of the weights.
\<close>

definition weighted_mean :: "jsnum \<times> jsnum \<Rightarrow> jsnum \<times> jsnum \<Rightarrow> jsnum \<times> jsnum \<Rightarrow> jsnum" where
  "weighted_mean p q r =
     js_div (js_add (js_add (js_mul (fst p) (snd p)) (js_mul (fst q) (snd q))) (js_mul (fst r) (snd r)))
            (js_add (js_add (snd p) (snd q)) (snd r))"

subsection \<open>The embedding call\<close>

text \<open>
  What \<open>embeddingModel.embedContent(text)\<close> does is an input: it returns a result,
  whose \<open>embedding.values\<close> is an array of numbers or absent, or it throws an error with a
  message or without one.
\<close>

datatype embed_outcome =
    EmbedValues "jsnum list option"
  | EmbedThrows "string option"

definition quota_message :: "string option \<Rightarrow> bool" where
  "quota_message msg =
     (case msg of Some m \<Rightarrow> str_includes m ''quota'' \<or> str_includes m ''limit'' | None \<Rightarrow> False)"

definition SENTINEL :: "jsnum list" where
  "SENTINEL = [Fin 0, Fin 0, Fin 0]"

definition embedText :: "(string \<Rightarrow> embed_outcome) \<Rightarrow> int \<Rightarrow> gate \<Rightarrow> string \<Rightarrow> jsnum list \<times> gate" where
  "embedText api now g text =
     (case checkRateLimit now g of
        (allowed, g1) \<Rightarrow>
          if \<not> allowed then (SENTINEL, g1)
          else (case api text of
                  EmbedValues vals \<Rightarrow>
                    (case vals of
                       Some v \<Rightarrow> if isValidEmbedding vals then (v, g1) else (SENTINEL, g1)
                     | None \<Rightarrow> (SENTINEL, g1))
                | EmbedThrows msg \<Rightarrow>
                    if quota_message msg then (SENTINEL, g1) else (SENTINEL, g1)))"

subsection \<open>Sample data\<close>

definition unit_entry :: "string \<Rightarrow> theme_entry list" where
  "unit_entry l = [\<lparr>label = l, weight = Fin 1\<rparr>]"

definition sample_vector :: theme_vector where
  "sample_vector =
     \<lparr>emotionalCore = [\<lparr>label = ''joy'', weight = Fin (3 / 4)\<rparr>, \<lparr>label = ''fear'', weight = Fin (1 / 4)\<rparr>],
      narrativeState = unit_entry ''unfinished'',
      relationalFocus = unit_entry ''self'',
      temporalOrientation = unit_entry ''memory'',
      spatialIntimacy = unit_entry ''private''\<rparr>"

definition ones8 :: "jsnum list" where
  "ones8 = [Fin 1, Fin 1, Fin 1, Fin 1, Fin 1, Fin 1, Fin 1, Fin 1]"

definition sample_candidate :: "jsnum list \<Rightarrow> candidate" where
  "sample_candidate emb = \<lparr>c_embedding = emb, c_themeVector = sample_vector, c_tags = [''sea'', ''night'']\<rparr>"

definition sample_family :: "string \<Rightarrow> string list \<Rightarrow> family_profile" where
  "sample_family m tags =
     \<lparr>f_mood = m, f_embedding = Some ones8,
      f_themeVector = sample_vector\<lparr>emotionalCore := unit_entry ''joy''\<rparr>, f_tags = tags\<rparr>"

text \<open>A stand-in for the cosine similarity, for evaluating examples.\<close>

definition half_cs :: "jsnum list \<Rightarrow> jsnum list \<Rightarrow> jsnum" where
  "half_cs a b = Fin (1 / 2)"

section \<open>Classification decision block (router.post('/'), server/routes/memories.js)\<close>

record scored_family =
  s_mood :: string
  s_score :: jsnum
  s_components :: match_components

text \<open>
  \<open>sort((a, b) => b.score - a.score)\<close>. \<open>Array.prototype.sort\<close> is stable; for scores
  that are all finite the comparator is a consistent order and the result is the stable
  descending arrangement, which this insertion sort computes. An element moves behind
  another exactly when the comparator is positive. With a \<open>NaN\<close> score the comparator is
  inconsistent and the order depends on the engine; that case is outside the model.
\<close>

definition comparator :: "scored_family \<Rightarrow> scored_family \<Rightarrow> jsnum" where
  "comparator a b = js_sub (s_score b) (s_score a)"

fun insort_desc :: "scored_family \<Rightarrow> scored_family list \<Rightarrow> scored_family list" where
  "insort_desc x [] = [x]"
| "insort_desc x (y # ys) =
     (if js_gt (comparator x y) (Fin 0) then y # insort_desc x ys else x # y # ys)"

definition sort_desc :: "scored_family list \<Rightarrow> scored_family list" where
  "sort_desc xs = foldr insort_desc xs []"

datatype decided_by = ByOffline | ByAi | BySimilarity | ByAiNew | ByAiExisting | ByAiOverride

record cluster_decision =
  decidedBy :: decided_by
  bestMatch :: "string option"
  bestScore :: "jsnum option"

record decision =
  finalMood :: string
  isNewFamily :: bool
  clusterDecision :: cluster_decision

text \<open>\<open>best?.mood || null\<close> and \<open>best?.score || null\<close>.\<close>

definition mood_or_null :: "scored_family option \<Rightarrow> string option" where
  "mood_or_null best = (case best of Some b \<Rightarrow> (if s_mood b \<noteq> [] then Some (s_mood b) else None) | None \<Rightarrow> None)"

definition score_or_null :: "scored_family option \<Rightarrow> jsnum option" where
  "score_or_null best = (case best of Some b \<Rightarrow> (if num_truthy (s_score b) then Some (s_score b) else None) | None \<Rightarrow> None)"

text \<open>
  The scoring of the candidate against every profile, sorted. \<open>familyStats\<close>, the result
  of \<open>buildFamilyStats\<close> on the sample, is an input.
\<close>

definition scoredFamilies ::
  "(jsnum list \<Rightarrow> jsnum list \<Rightarrow> jsnum) \<Rightarrow> candidate \<Rightarrow> family_profile list \<Rightarrow> scored_family list" where
  "scoredFamilies cs cand familyStats =
     sort_desc (map (\<lambda>family. let scored = scoreFamilyMatch cs cand family
                               in \<lparr>s_mood = f_mood family, s_score = score scored,
                                   s_components = components scored\<rparr>) familyStats)"

text \<open>
  The body of \<open>if (!offlineMode && existingFamilies.length > 0)\<close>. \<open>proposed\<close> is what
  \<open>proposeNewFamilyName\<close> returns if it is called: a name, or \<open>null\<close>.
\<close>

definition decisionBlock ::
  "(jsnum list \<Rightarrow> jsnum list \<Rightarrow> jsnum) \<Rightarrow> string list \<Rightarrow> family_profile list \<Rightarrow> candidate
     \<Rightarrow> string \<Rightarrow> string option \<Rightarrow> decision" where
  "decisionBlock cs existingFamilies familyStats cand normalizedMood proposed =
     (let scoredFams = scoredFamilies cs cand familyStats;
          best = (case scoredFams of [] \<Rightarrow> None | b # _ \<Rightarrow> Some b);
          second = (case scoredFams of _ # s # _ \<Rightarrow> Some s | _ \<Rightarrow> None);
          aiScore = find (\<lambda>entry. s_mood entry = normalizedMood) scoredFams;
          hasEmb = (isValidEmbedding (Some (c_embedding cand)) \<and>
                    (case best of Some b \<Rightarrow> hasEmbedding (s_components b) | None \<Rightarrow> False));
          threshold = (if hasEmb then lit (62 / 100) else lit (52 / 100));
          strongThreshold = (if hasEmb then lit (72 / 100) else lit (6 / 10));
          margin = lit (8 / 100);
          bestMargin = (case best of
                          Some b \<Rightarrow> js_sub (s_score b)
                                      (case second of Some s \<Rightarrow> num_or (s_score s) (Fin 0) | None \<Rightarrow> Fin 0)
                        | None \<Rightarrow> Fin 0)
      in if (case best of
               Some b \<Rightarrow> js_ge (s_score b) threshold \<and>
                         (js_ge bestMargin margin \<or> js_ge (s_score b) strongThreshold)
             | None \<Rightarrow> False)
         then \<lparr>finalMood = (case best of Some b \<Rightarrow> s_mood b | None \<Rightarrow> normalizedMood),
               isNewFamily = False,
               clusterDecision = \<lparr>decidedBy = BySimilarity,
                                   bestMatch = map_option s_mood best,
                                   bestScore = map_option s_score best\<rparr>\<rparr>
         else if normalizedMood \<notin> set existingFamilies
         then \<lparr>finalMood = normalizedMood, isNewFamily = True,
               clusterDecision = \<lparr>decidedBy = ByAiNew, bestMatch = mood_or_null best,
                                   bestScore = score_or_null best\<rparr>\<rparr>
         else if (case aiScore of
                    Some entry \<Rightarrow> js_ge (s_score entry) (js_sub threshold (lit (5 / 100)))
                  | None \<Rightarrow> False)
         then \<lparr>finalMood = normalizedMood, isNewFamily = False,
               clusterDecision = \<lparr>decidedBy = ByAiExisting, bestMatch = mood_or_null best,
                                   bestScore = score_or_null best\<rparr>\<rparr>
         else (let suggestedMood = proposed;
                   final = (case suggestedMood of
                              Some s \<Rightarrow> (if s \<noteq> [] then s else normalizedMood)
                            | None \<Rightarrow> normalizedMood)
               in \<lparr>finalMood = final, isNewFamily = (final \<notin> set existingFamilies),
                   clusterDecision = \<lparr>decidedBy = ByAiOverride, bestMatch = mood_or_null best,
                                       bestScore = score_or_null best\<rparr>\<rparr>))"

text \<open>The decision as it stands after line 708, with the guard of the block.\<close>

definition classifyDecision ::
  "(jsnum list \<Rightarrow> jsnum list \<Rightarrow> jsnum) \<Rightarrow> bool \<Rightarrow> string list \<Rightarrow> family_profile list \<Rightarrow> candidate
     \<Rightarrow> string \<Rightarrow> string option \<Rightarrow> decision" where
  "classifyDecision cs offlineMode existingFamilies familyStats cand normalizedMood proposed =
     (if \<not> offlineMode \<and> length existingFamilies > 0
      then decisionBlock cs existingFamilies familyStats cand normalizedMood proposed
      else \<lparr>finalMood = normalizedMood, isNewFamily = False,
            clusterDecision = \<lparr>decidedBy = (if offlineMode then ByOffline else ByAi),
                                bestMatch = None, bestScore = None\<rparr>\<rparr>)"

subsection \<open>The policy in the words of the specification\<close>

text \<open>
  An entry of the ranking is a family name, its score (the value of a finite double) and
  whether its comparison was embedding-backed. The top-scoring entry is the first one, in
  the order of the profiles, that attains the maximal score; the runner-up score is the
  maximal score among the other entries, and 0 when there is none.
\<close>

type_synonym ranked = "string \<times> real \<times> bool"

definition max_score :: "ranked list \<Rightarrow> real" where
  "max_score rs = Max (set (map (\<lambda>(m, s, h). s) rs))"

definition top_scoring :: "ranked list \<Rightarrow> ranked option" where
  "top_scoring rs = find (\<lambda>(m, s, h). s = max_score rs) rs"

definition runner_up_score :: "ranked list \<Rightarrow> real" where
  "runner_up_score rs =
     (case top_scoring rs of
        None \<Rightarrow> 0
      | Some b \<Rightarrow> (if remove1 b rs = [] then 0 else max_score (remove1 b rs)))"

text \<open>The suggested mood's own score against its profile, if it has a profile.\<close>

definition own_score :: "ranked list \<Rightarrow> string \<Rightarrow> real option" where
  "own_score rs suggested = map_option fst (map_of rs suggested)"

text \<open>
  The ordered policy (a) to (d). Its numbers are those of the specification, \<open>0.62\<close>,
  \<open>0.72\<close>, \<open>0.52\<close>, \<open>0.60\<close>, \<open>0.08\<close> and \<open>0.05\<close>, and its two differences,
  \<open>best.score - runnerUp.score\<close> and \<open>threshold - 0.05\<close>, are differences of
  JavaScript numbers.
\<close>

definition policy_spec ::
  "string list \<Rightarrow> ranked list \<Rightarrow> string \<Rightarrow> string option \<Rightarrow> string \<times> bool \<times> decided_by" where
  "policy_spec existing rs suggested alternative =
     (case top_scoring rs of
        None \<Rightarrow>
          (if suggested \<notin> set existing then (suggested, True, ByAiNew)
           else (case alternative of
                   Some name \<Rightarrow> (if name \<noteq> [] then (name, name \<notin> set existing, ByAiOverride)
                                  else (suggested, False, ByAiOverride))
                 | None \<Rightarrow> (suggested, False, ByAiOverride)))
      | Some (bestMood, bestSc, embBacked) \<Rightarrow>
          (let threshold = (if embBacked then lit (62 / 100) else lit (52 / 100));
               strongThreshold = (if embBacked then lit (72 / 100) else lit (60 / 100))
           in if js_ge (Fin bestSc) threshold \<and>
                 (js_ge (js_sub (Fin bestSc) (Fin (runner_up_score rs))) (lit (8 / 100))
                  \<or> js_ge (Fin bestSc) strongThreshold)
              then (bestMood, False, BySimilarity)
              else if suggested \<notin> set existing
              then (suggested, True, ByAiNew)
              else if (case own_score rs suggested of
                         Some s \<Rightarrow> js_ge (Fin s) (js_sub threshold (lit (5 / 100)))
                       | None \<Rightarrow> False)
              then (suggested, False, ByAiExisting)
              else (case alternative of
                      Some name \<Rightarrow> (if name \<noteq> [] then (name, name \<notin> set existing, ByAiOverride)
                                     else (suggested, False, ByAiOverride))
                    | None \<Rightarrow> (suggested, False, ByAiOverride))))"

text \<open>The ranking that the code's scoring gives, read as finite numbers.\<close>

definition ranking ::
  "(jsnum list \<Rightarrow> jsnum list \<Rightarrow> jsnum) \<Rightarrow> candidate \<Rightarrow> family_profile list \<Rightarrow> ranked list" where
  "ranking cs cand familyStats =
     map (\<lambda>family. (f_mood family, fin_val (score (scoreFamilyMatch cs cand family)),
                    hasEmbedding (components (scoreFamilyMatch cs cand family)))) familyStats"

definition outcome_of :: "decision \<Rightarrow> string \<times> bool \<times> decided_by" where
  "outcome_of d = (finalMood d, isNewFamily d, decidedBy (clusterDecision d))"

subsection \<open>Auxiliary notions for the proof of the policy\<close>

text \<open>
  The key by which the sorted list is ordered, the ranking entry of a scored family, and
  the multiples of \<open>2^-1074\<close>, among which all finite doubles are.
\<close>

definition dyadic :: "real \<Rightarrow> bool" where
  "dyadic v = (\<exists>n::int. v = of_int n * 2 powi (- 1074))"

definition sort_key_of :: "scored_family \<Rightarrow> real" where
  "sort_key_of e = - fin_val (s_score e)"

definition to_ranked :: "scored_family \<Rightarrow> ranked" where
  "to_ranked e = (s_mood e, fin_val (s_score e), hasEmbedding (s_components e))"

definition score_entry ::
  "(jsnum list \<Rightarrow> jsnum list \<Rightarrow> jsnum) \<Rightarrow> candidate \<Rightarrow> family_profile \<Rightarrow> scored_family" where
  "score_entry cs cand family =
     \<lparr>s_mood = f_mood family, s_score = score (scoreFamilyMatch cs cand family),
      s_components = components (scoreFamilyMatch cs cand family)\<rparr>"

definition sample_families :: "family_profile list" where
  "sample_families = [sample_family ''Grief'' [''x''], sample_family ''Joy'' [''sea'']]"

text \<open>
  Sample data without usable embeddings, with scores on the edge of the tests: theme
  vectors of one label per axis, which agree with the candidate's on 2 or 3 axes, and tag
  lists that share 5 of 7, 4 of 7 and 6 of 10 tags with the candidate's.
\<close>

definition axes5 :: "string \<Rightarrow> string \<Rightarrow> string \<Rightarrow> string \<Rightarrow> string \<Rightarrow> theme_vector" where
  "axes5 a b c d e =
     \<lparr>emotionalCore = unit_entry a, narrativeState = unit_entry b, relationalFocus = unit_entry c,
      temporalOrientation = unit_entry d, spatialIntimacy = unit_entry e\<rparr>"

definition edge_candidate :: candidate where
  "edge_candidate =
     \<lparr>c_embedding = [Fin 0, Fin 0, Fin 0],
      c_themeVector = axes5 ''joy'' ''unfinished'' ''self'' ''memory'' ''private'',
      c_tags = [''a'', ''b'', ''c'', ''d'', ''e'', ''f'']\<rparr>"

definition edge_families :: "family_profile list" where
  "edge_families =
     [\<lparr>f_mood = ''Grief'', f_embedding = None,
       f_themeVector = axes5 ''joy'' ''unfinished'' ''other'' ''future'' ''public'',
       f_tags = [''a'', ''b'', ''c'', ''d'', ''e'', ''z'']\<rparr>,
      \<lparr>f_mood = ''Calm'', f_embedding = None,
       f_themeVector = axes5 ''joy'' ''unfinished'' ''self'' ''future'' ''public'',
       f_tags = [''a'', ''b'', ''c'', ''d'', ''z'']\<rparr>]"

definition edge_family :: "family_profile list" where
  "edge_family =
     [\<lparr>f_mood = ''Joy'', f_embedding = None,
       f_themeVector = axes5 ''joy'' ''unfinished'' ''other'' ''future'' ''public'',
       f_tags = [''a'', ''b'', ''c'', ''d'', ''e'', ''f'', ''g'', ''h'', ''i'', ''j'']\<rparr>]"

section \<open>Pairwise link scorer (server/routes/links.js, buildIdeaLinks)\<close>

text \<open>
  A Memory document as \<open>buildIdeaLinks\<close> reads it: \<open>_id\<close> (rendered by \<open>String\<close>),
  \<open>mood\<close>, \<open>tags\<close> and \<open>themeVector.emotionalCore\<close> (empty when absent).
\<close>

record server_memory =
  m_id :: string
  m_mood :: string
  m_tags :: "string list"
  m_emotionalCore :: "theme_entry list"

record link =
  l_id :: string
  fromId :: string
  toId :: string
  l_type :: string
  l_score :: int
  reason :: string

definition contradictions :: "(string \<times> string) list" where
  "contradictions = [(''joy'', ''grief''), (''love'', ''anger''), (''hope'', ''despair''),
                     (''fear'', ''relief''), (''light'', ''dark''), (''home'', ''loss'')]"

definition absenceTags :: "string list" where
  "absenceTags = [''unsaid'', ''silence'', ''absence'', ''missing'', ''hollow'']"

definition sameMood :: "server_memory \<Rightarrow> server_memory \<Rightarrow> bool" where
  "sameMood a b =
     (let aMood = toLowerCase (m_mood a); bMood = toLowerCase (m_mood b)
      in aMood \<noteq> [] \<and> bMood \<noteq> [] \<and> aMood = bMood)"

definition hasContradiction :: "server_memory \<Rightarrow> server_memory \<Rightarrow> bool" where
  "hasContradiction a b =
     (let aMood = toLowerCase (m_mood a); bMood = toLowerCase (m_mood b)
      in list_ex (\<lambda>(left, right). (str_includes aMood left \<and> str_includes bMood right)
                                   \<or> (str_includes aMood right \<and> str_includes bMood left))
                 contradictions)"

definition sharedCore :: "server_memory \<Rightarrow> server_memory \<Rightarrow> string list" where
  "sharedCore a b =
     (let aCore = map (\<lambda>entry. toLowerCase (label entry)) (m_emotionalCore a);
          bCore = map (\<lambda>entry. toLowerCase (label entry)) (m_emotionalCore b)
      in filter (\<lambda>lbl. lbl \<noteq> [] \<and> lbl \<in> set bCore) aCore)"

definition sharedTags :: "server_memory \<Rightarrow> server_memory \<Rightarrow> string list" where
  "sharedTags a b = filter (\<lambda>tag. tag \<in> set (m_tags b)) (m_tags a)"

definition hasAbsence :: "server_memory \<Rightarrow> bool" where
  "hasAbsence a = list_ex (\<lambda>tag. toLowerCase tag \<in> set absenceTags) (m_tags a)"

text \<open>\<open>reason || r\<close> on strings.\<close>

definition str_or :: "string \<Rightarrow> string \<Rightarrow> string" where
  "str_or s r = (if s \<noteq> [] then s else r)"

text \<open>
  The body of the inner loop for the pair \<open>(a, b)\<close>: the link pushed, or \<open>None\<close> when
  the pair is skipped. The successive updates of \<open>score\<close> and \<open>reason\<close> are the numbered
  bindings.
\<close>

definition pair_link :: "server_memory \<Rightarrow> server_memory \<Rightarrow> link option" where
  "pair_link a b =
     (let (score0, reason0) = (0 :: int, []);
          (score1, reason1) = (if hasContradiction a b
                               then (score0 + 2, ''shared contradiction'') else (score0, reason0));
          (score2, reason2) = (if sameMood a b
                               then (score1 + 2, str_or reason1 ''shared mood'') else (score1, reason1));
          (score3, reason3) = (if sharedCore a b \<noteq> []
                               then (score2 + 2, str_or reason2 ''shared emotional core'')
                               else (score2, reason2));
          (score4, reason4) = (if sharedTags a b \<noteq> []
                               then (score3 + min (int (length (sharedTags a b))) 2,
                                     str_or reason3 ''shared image'')
                               else (score3, reason3));
          (score5, reason5) = (if hasAbsence a \<and> hasAbsence b
                               then (score4 + 1, str_or reason4 ''shared absence'')
                               else (score4, reason4))
      in if sameMood a b \<and> score5 < 2
         then Some \<lparr>l_id = ''family:'' @ m_id a @ ''-'' @ m_id b, fromId = m_id a, toId = m_id b,
                    l_type = ''family'', l_score = 1, reason = ''shared family''\<rparr>
         else if score5 < 2 then None
         else Some \<lparr>l_id = ''idea:'' @ m_id a @ ''-'' @ m_id b, fromId = m_id a, toId = m_id b,
                    l_type = (if sameMood a b then ''family'' else ''idea''),
                    l_score = score5, reason = reason5\<rparr>)"

text \<open>The inner loop over \<open>j > i\<close> and the outer loop over \<open>i\<close>, in the order of the pushes.\<close>

fun inner_loop :: "server_memory \<Rightarrow> server_memory list \<Rightarrow> link list" where
  "inner_loop a [] = []"
| "inner_loop a (b # bs) =
     (case pair_link a b of None \<Rightarrow> inner_loop a bs | Some l \<Rightarrow> l # inner_loop a bs)"

fun outer_loop :: "server_memory list \<Rightarrow> link list" where
  "outer_loop [] = []"
| "outer_loop (a # rest) = inner_loop a rest @ outer_loop rest"

text \<open>
  \<open>links.sort((x, y) => y.score - x.score)\<close> is a stable sort by descending score (the
  scores are small integers), and \<open>slice(0, 140)\<close> keeps the first 140.
\<close>

definition buildIdeaLinks :: "server_memory list \<Rightarrow> link list" where
  "buildIdeaLinks memories = take 140 (sort_key (\<lambda>l. - l_score l) (outer_loop memories))"

subsection \<open>Notions for stating the link property\<close>

definition links_between :: "server_memory \<Rightarrow> server_memory \<Rightarrow> link list \<Rightarrow> link list" where
  "links_between a b ls =
     filter (\<lambda>l. (fromId l = m_id a \<and> toId l = m_id b) \<or> (fromId l = m_id b \<and> toId l = m_id a)) ls"

definition no_other_signal :: "server_memory \<Rightarrow> server_memory \<Rightarrow> bool" where
  "no_other_signal a b =
     (\<not> hasContradiction a b \<and> sharedCore a b = [] \<and> sharedTags a b = []
      \<and> \<not> (hasAbsence a \<and> hasAbsence b))"

definition calm_a :: server_memory where
  "calm_a = \<lparr>m_id = ''a1'', m_mood = ''Calm'', m_tags = [''sea''], m_emotionalCore = unit_entry ''peace''\<rparr>"

definition calm_b :: server_memory where
  "calm_b = \<lparr>m_id = ''b2'', m_mood = ''calm'', m_tags = [''road''], m_emotionalCore = unit_entry ''memory''\<rparr>"

definition shared_mood_link :: "server_memory \<Rightarrow> server_memory \<Rightarrow> link" where
  "shared_mood_link a b =
     \<lparr>l_id = ''idea:'' @ m_id a @ ''-'' @ m_id b, fromId = m_id a, toId = m_id b,
      l_type = ''family'', l_score = 2, reason = ''shared mood''\<rparr>"

text \<open>
  The property in the words of the specification: exactly one link between the two
  memories, of type \<open>family\<close> and with score 1.
\<close>

definition one_family_link_score_1 :: "server_memory \<Rightarrow> server_memory \<Rightarrow> link list \<Rightarrow> bool" where
  "one_family_link_score_1 a b ls =
     (case links_between a b ls of
        [l] \<Rightarrow> l_type l = ''family'' \<and> l_score l = 1
      | _ \<Rightarrow> False)"

section \<open>Cluster label resolver (client/src/App.jsx, buildClusterMap)\<close>

text \<open>
  An id as the client code handles it is a string or \<open>undefined\<close> (\<open>None\<close>): that is
  what \<open>parent.get\<close> returns for an absent key. A memory of the client is read through
  \<open>_id\<close> and \<open>mood\<close>; a mood that is missing or not a string is \<open>None\<close>.
\<close>

type_synonym jid = "string option"

record client_memory =
  cm_id :: jid
  cm_mood :: "string option"

definition id_truthy :: "jid \<Rightarrow> bool" where
  "id_truthy k = (case k of Some s \<Rightarrow> s \<noteq> [] | None \<Rightarrow> False)"

definition normalizeMood :: "string option \<Rightarrow> string" where
  "normalizeMood mood =
     (case mood of
        None \<Rightarrow> ''Fragment''
      | Some m \<Rightarrow> if m = [] then ''Fragment''
                  else (let trimmed = trim m in if length trimmed \<noteq> 0 then trimmed else ''Fragment''))"

text \<open>The \<open>Map\<close> \<open>parent\<close>; \<open>pget\<close> is \<open>parent.get\<close>.\<close>

type_synonym parent_map = "jid \<rightharpoonup> jid"

definition pget :: "parent_map \<Rightarrow> jid \<Rightarrow> jid" where
  "pget parent k = (case parent k of Some v \<Rightarrow> v | None \<Rightarrow> None)"

definition init_parent :: "client_memory list \<Rightarrow> parent_map" where
  "init_parent memories =
     foldl (\<lambda>parent mem. if id_truthy (cm_id mem) then parent(cm_id mem \<mapsto> cm_id mem) else parent)
           Map.empty memories"

text \<open>
  The two \<open>while\<close> loops of \<open>find\<close>. Neither has a bound in the source, so both are
  partial functions: \<open>None\<close> is a loop that does not end.
\<close>

partial_function (option) find_root :: "parent_map \<Rightarrow> jid \<Rightarrow> jid option" where
  "find_root parent rootId =
     (if rootId \<noteq> pget parent rootId then find_root parent (pget parent rootId) else Some rootId)"

partial_function (option) compress :: "parent_map \<Rightarrow> jid \<Rightarrow> jid \<Rightarrow> parent_map option" where
  "compress parent rootId current =
     (if current \<noteq> rootId
      then compress (parent(current \<mapsto> rootId)) rootId (pget parent current)
      else Some parent)"

declare find_root.simps [code] compress.simps [code]

text \<open>\<open>find\<close> returns the root and leaves the map with the path compressed.\<close>

definition find_uf :: "parent_map \<Rightarrow> jid \<Rightarrow> (jid \<times> parent_map) option" where
  "find_uf parent k =
     (let rootId = pget parent k
      in if \<not> id_truthy rootId then Some (k, parent)
         else do {
           r \<leftarrow> find_root parent rootId;
           parent' \<leftarrow> compress parent r k;
           Some (r, parent')
         })"

definition union_uf :: "parent_map \<Rightarrow> jid \<Rightarrow> jid \<Rightarrow> parent_map option" where
  "union_uf parent a b =
     (if parent a = None \<or> parent b = None then Some parent
      else do {
        (rootA, p1) \<leftarrow> find_uf parent a;
        (rootB, p2) \<leftarrow> find_uf p1 b;
        Some (if rootA \<noteq> rootB then p2(rootB \<mapsto> rootA) else p2)
      })"

text \<open>\<open>(links || []).forEach(...)\<close>; the ids of a link are strings, the empty one falsy.\<close>

fun link_loop :: "parent_map \<Rightarrow> link list \<Rightarrow> parent_map option" where
  "link_loop parent [] = Some parent"
| "link_loop parent (l # ls) =
     (if fromId l = [] \<or> toId l = [] then link_loop parent ls
      else do {
        parent' \<leftarrow> union_uf parent (Some (fromId l)) (Some (toId l));
        link_loop parent' ls
      })"

text \<open>
  The tally. \<open>moodCounts\<close> maps a root to the \<open>Map\<close> of its mood counts, which keeps the
  moods in the order in which they were first counted.
\<close>

definition count_or0 :: "nat js_map \<Rightarrow> string \<Rightarrow> nat" where
  "count_or0 counts mood = (case map_of counts mood of Some n \<Rightarrow> n | None \<Rightarrow> 0)"

definition count_mood :: "nat js_map \<Rightarrow> string \<Rightarrow> nat js_map" where
  "count_mood counts mood = map_set counts mood (count_or0 counts mood + 1)"

type_synonym mood_counts = "jid \<rightharpoonup> nat js_map"

fun tally_loop :: "parent_map \<Rightarrow> mood_counts \<Rightarrow> client_memory list \<Rightarrow> (parent_map \<times> mood_counts) option" where
  "tally_loop parent moodCounts [] = Some (parent, moodCounts)"
| "tally_loop parent moodCounts (mem # mems) =
     (if \<not> id_truthy (cm_id mem) then tally_loop parent moodCounts mems
      else do {
        (rootId, parent') \<leftarrow> find_uf parent (cm_id mem);
        let counts = (case moodCounts rootId of None \<Rightarrow> [] | Some c \<Rightarrow> c);
        let mood = normalizeMood (cm_mood mem);
        tally_loop parent' (moodCounts(rootId \<mapsto> count_mood counts mood)) mems
      })"

text \<open>
  \<open>counts.forEach\<close> with \<open>topMood = null\<close>, \<open>topCount = -1\<close>: a later mood replaces the
  current one only with a strictly greater count.
\<close>

definition top_mood :: "nat js_map \<Rightarrow> string option \<times> int" where
  "top_mood counts =
     foldl (\<lambda>(topMood, topCount) (mood, count).
              if int count > topCount then (Some mood, int count) else (topMood, topCount))
           (None, - 1) counts"

type_synonym label_map = "jid \<rightharpoonup> string"

fun label_loop ::
  "parent_map \<Rightarrow> mood_counts \<Rightarrow> label_map \<Rightarrow> client_memory list \<Rightarrow> (parent_map \<times> label_map) option" where
  "label_loop parent moodCounts clusterLabelById [] = Some (parent, clusterLabelById)"
| "label_loop parent moodCounts clusterLabelById (mem # mems) =
     (if \<not> id_truthy (cm_id mem) then label_loop parent moodCounts clusterLabelById mems
      else do {
        (rootId, parent') \<leftarrow> find_uf parent (cm_id mem);
        (case moodCounts rootId of
           None \<Rightarrow> label_loop parent' moodCounts clusterLabelById mems
         | Some counts \<Rightarrow>
             (let topMood = fst (top_mood counts);
                  lbl = (case topMood of
                           Some m \<Rightarrow> if m \<noteq> [] then m else normalizeMood (cm_mood mem)
                         | None \<Rightarrow> normalizeMood (cm_mood mem))
              in label_loop parent' moodCounts (clusterLabelById(cm_id mem \<mapsto> lbl)) mems))
      })"

definition buildClusterMap :: "client_memory list \<Rightarrow> link list \<Rightarrow> label_map option" where
  "buildClusterMap memories links =
     do {
       p1 \<leftarrow> link_loop (init_parent memories) links;
       (p2, moodCounts) \<leftarrow> tally_loop p1 Map.empty memories;
       (p3, clusterLabelById) \<leftarrow> label_loop p2 moodCounts Map.empty memories;
       Some clusterLabelById
     }"

subsection \<open>Sample data\<close>

definition plain_link :: "string \<Rightarrow> string \<Rightarrow> link" where
  "plain_link a b = \<lparr>l_id = ''idea:'' @ a @ ''-'' @ b, fromId = a, toId = b, l_type = ''idea'',
                     l_score = 2, reason = ''shared image''\<rparr>"

definition path_memories :: "client_memory list" where
  "path_memories = [\<lparr>cm_id = Some ''A'', cm_mood = Some ''Joy''\<rparr>,
                    \<lparr>cm_id = Some ''B'', cm_mood = Some ''Joy''\<rparr>,
                    \<lparr>cm_id = Some ''C'', cm_mood = Some ''Grief''\<rparr>,
                    \<lparr>cm_id = Some ''D'', cm_mood = Some '' Awe ''\<rparr>]"

definition path_links :: "link list" where
  "path_links = [plain_link ''A'' ''B'', plain_link ''B'' ''C'', plain_link ''C'' ''Z'']"


subsection \<open>Notions for stating and proving the resolver's properties\<close>

text \<open>
  \<open>reaches p k r n\<close>: following \<open>parent.get\<close> from \<open>k\<close> arrives after \<open>n\<close> steps at \<open>r\<close>,
  which is its own parent.
\<close>

inductive reaches :: "parent_map \<Rightarrow> jid \<Rightarrow> jid \<Rightarrow> nat \<Rightarrow> bool" for p :: parent_map where
  at_root: "pget p r = r \<Longrightarrow> reaches p r r 0"
| step: "pget p k \<noteq> k \<Longrightarrow> reaches p (pget p k) r n \<Longrightarrow> reaches p k r (Suc n)"

definition rep :: "parent_map \<Rightarrow> jid \<Rightarrow> jid" where
  "rep p k = (THE r. \<exists>n. reaches p k r n)"

text \<open>
  The state of \<open>parent\<close> between two operations: its keys are the set \<open>S\<close> of truthy ids,
  every parent is a key, and every key reaches a root.
\<close>

definition uf_inv :: "jid set \<Rightarrow> parent_map \<Rightarrow> bool" where
  "uf_inv S p = (dom p = S \<and> (\<forall>k\<in>S. id_truthy k) \<and> (\<forall>k\<in>S. pget p k \<in> S)
                 \<and> (\<forall>k\<in>S. \<exists>r n. reaches p k r n))"

text \<open>
  The components in the words of the specification. A link counts when both its ends are
  ids of listed memories; two ids are connected when a chain of such links, in either
  direction, leads from one to the other. \<open>conn\<close> is that closure over a relation \<open>R\<close>
  that already holds.
\<close>

definition memory_ids :: "client_memory list \<Rightarrow> jid set" where
  "memory_ids memories = cm_id ` set (filter (\<lambda>m. id_truthy (cm_id m)) memories)"

definition valid_link :: "jid set \<Rightarrow> link \<Rightarrow> bool" where
  "valid_link S l = (fromId l \<noteq> [] \<and> toId l \<noteq> [] \<and> Some (fromId l) \<in> S \<and> Some (toId l) \<in> S)"

inductive conn :: "(jid \<Rightarrow> jid \<Rightarrow> bool) \<Rightarrow> jid set \<Rightarrow> link list \<Rightarrow> jid \<Rightarrow> jid \<Rightarrow> bool"
  for R :: "jid \<Rightarrow> jid \<Rightarrow> bool" and S :: "jid set" and ls :: "link list" where
  base: "R x y \<Longrightarrow> conn R S ls x y"
| by_link: "l \<in> set ls \<Longrightarrow> valid_link S l \<Longrightarrow> conn R S ls (Some (fromId l)) (Some (toId l))"
| sym: "conn R S ls x y \<Longrightarrow> conn R S ls y x"
| trans: "conn R S ls x y \<Longrightarrow> conn R S ls y z \<Longrightarrow> conn R S ls x z"

definition connected :: "client_memory list \<Rightarrow> link list \<Rightarrow> jid \<Rightarrow> jid \<Rightarrow> bool" where
  "connected memories links =
     conn (\<lambda>x y. x = y \<and> x \<in> memory_ids memories) (memory_ids memories) links"

text \<open>
  The moods of the memories of a component, in the order of the list, and the majority mood
  of a list of moods: the first mood of the list whose number of occurrences is the greatest.
\<close>

definition component_moods :: "client_memory list \<Rightarrow> link list \<Rightarrow> jid \<Rightarrow> string list" where
  "component_moods memories links k =
     map (\<lambda>m. normalizeMood (cm_mood m))
         (filter (\<lambda>m. id_truthy (cm_id m) \<and> connected memories links k (cm_id m)) memories)"

definition majority_mood :: "string list \<Rightarrow> string option" where
  "majority_mood moods =
     find (\<lambda>m. \<forall>M\<in>set moods. count_list moods M \<le> count_list moods m) moods"

text \<open>The same root in a map, for keys of \<open>S\<close>; the members of a root; the tally of a list.\<close>

definition same_root :: "jid set \<Rightarrow> parent_map \<Rightarrow> jid \<Rightarrow> jid \<Rightarrow> bool" where
  "same_root S p x y = (x \<in> S \<and> y \<in> S \<and> rep p x = rep p y)"

definition members :: "parent_map \<Rightarrow> jid \<Rightarrow> client_memory list \<Rightarrow> client_memory list" where
  "members p r memories = filter (\<lambda>m. id_truthy (cm_id m) \<and> rep p (cm_id m) = r) memories"

definition moods_of :: "client_memory list \<Rightarrow> string list" where
  "moods_of memories = map (\<lambda>m. normalizeMood (cm_mood m)) memories"

definition tally_of :: "string list \<Rightarrow> nat js_map" where
  "tally_of moods = foldl count_mood [] moods"

text \<open>The three memories A, B, C of the specification's example, linked A-B and B-C.\<close>

definition abc_memories :: "client_memory list" where
  "abc_memories = [\<lparr>cm_id = Some ''A'', cm_mood = Some ''Joy''\<rparr>,
                   \<lparr>cm_id = Some ''B'', cm_mood = Some ''Joy''\<rparr>,
                   \<lparr>cm_id = Some ''C'', cm_mood = Some ''Grief''\<rparr>]"

definition abc_links :: "link list" where
  "abc_links = [plain_link ''A'' ''B'', plain_link ''B'' ''C'']"

section \<open>Properties of the rounding to doubles\<close>

lemma round_half_even_of_int: "round_half_even (of_int n) = n"
  by (simp add: round_half_even_def)

lemma round_half_even_range: "\<lfloor>q\<rfloor> \<le> round_half_even q \<and> round_half_even q \<le> \<lfloor>q\<rfloor> + 1"
  by (simp add: round_half_even_def Let_def)

lemma round_half_even_mono: "p \<le> q \<Longrightarrow> round_half_even p \<le> round_half_even q"
proof -
  assume pq: "p \<le> q"
  then have fl: "\<lfloor>p\<rfloor> \<le> \<lfloor>q\<rfloor>" by (rule floor_mono)
  show ?thesis
  proof (cases "\<lfloor>p\<rfloor> = \<lfloor>q\<rfloor>")
    case True
    then show ?thesis using pq by (auto simp: round_half_even_def Let_def)
  next
    case False
    with fl have "\<lfloor>p\<rfloor> + 1 \<le> \<lfloor>q\<rfloor>" by simp
    with round_half_even_range[of p] round_half_even_range[of q] show ?thesis by linarith
  qed
qed

lemma ilog2_bounds: "0 < n \<Longrightarrow> 0 \<le> ilog2 n \<and> 2 ^ nat (ilog2 n) \<le> n \<and> n < 2 ^ nat (ilog2 n + 1)"
proof (induction n rule: ilog2.induct)
  case (1 n)
  show ?case
  proof (cases "n < 2")
    case True
    with 1 have "n = 1" by simp
    then show ?thesis by (simp add: ilog2.simps)
  next
    case False
    then have "0 < n div 2" by simp
    with 1 False have ih: "0 \<le> ilog2 (n div 2)" "2 ^ nat (ilog2 (n div 2)) \<le> n div 2"
      "n div 2 < 2 ^ nat (ilog2 (n div 2) + 1)" by simp_all
    have e: "ilog2 n = 1 + ilog2 (n div 2)" using False by (simp add: ilog2.simps)
    define k where "k = nat (ilog2 (n div 2))"
    have k1: "nat (ilog2 (n div 2) + 1) = Suc k" using ih(1) by (simp add: k_def)
    have k2: "nat (1 + ilog2 (n div 2)) = Suc k" using ih(1) by (simp add: k_def)
    have k3: "nat (1 + ilog2 (n div 2) + 1) = Suc (Suc k)" using ih(1) by (simp add: k_def)
    from ih(2) have lo: "(2::int) ^ k \<le> n div 2" by (simp add: k_def)
    from ih(3) have hi: "n div 2 < (2::int) ^ Suc k" by (simp only: k1)
    have "2 * (n div 2) \<le> n" "n \<le> 2 * (n div 2) + 1" by linarith+
    with lo hi have "(2::int) ^ Suc k \<le> n" "n < (2::int) ^ Suc (Suc k)" by simp_all
    then show ?thesis unfolding e k2 k3 using ih(1) by simp
  qed
qed

lemma ilog2_real:
  assumes "0 < n"
  shows "(2::real) powi (ilog2 n) \<le> of_int n \<and> of_int n + 1 \<le> (2::real) powi (ilog2 n + 1)"
proof -
  from ilog2_bounds[OF assms]
  have k: "0 \<le> ilog2 n" and lo: "2 ^ nat (ilog2 n) \<le> n" and hi: "n < 2 ^ nat (ilog2 n + 1)" by auto
  from hi have hi': "n + 1 \<le> 2 ^ nat (ilog2 n + 1)" by simp
  have p1: "(2::real) powi (ilog2 n) = 2 ^ nat (ilog2 n)" using k by (simp add: power_int_def)
  have p2: "(2::real) powi (ilog2 n + 1) = 2 ^ nat (ilog2 n + 1)" using k by (simp add: power_int_def)
  have "real_of_int (2 ^ nat (ilog2 n)) \<le> of_int n" using lo by (simp only: of_int_le_iff)
  moreover have "real_of_int (n + 1) \<le> of_int (2 ^ nat (ilog2 n + 1))" using hi' by (simp only: of_int_le_iff)
  ultimately show ?thesis unfolding p1 p2 by simp
qed

lemma binade_bounds:
  assumes "0 < a"
  shows "2 powi (binade a) \<le> a \<and> a < 2 powi (binade a + 1)"
proof (cases "1 \<le> a")
  case True
  define n where "n = \<lfloor>a\<rfloor>"
  from True have n: "0 < n" by (simp add: n_def)
  have fl: "of_int n \<le> a" "a < of_int n + 1" unfolding n_def by linarith+
  have e: "binade a = ilog2 n" using True by (simp add: binade_def n_def)
  from ilog2_real[OF n] fl show ?thesis unfolding e by linarith
next
  case False
  define n where "n = \<lfloor>1 / a\<rfloor>"
  define f where "f = ilog2 n"
  from False assms have b1: "1 < 1 / a" by simp
  then have n: "0 < n" by (simp add: n_def)
  have fl: "of_int n \<le> 1 / a" "1 / a < of_int n + 1" unfolding n_def by linarith+
  from ilog2_real[OF n] fl have b: "(2::real) powi f \<le> 1 / a" "1 / a < 2 powi (f + 1)"
    unfolding f_def by linarith+
  have pf: "0 < (2::real) powi f" and pf1: "0 < (2::real) powi (f + 1)" by simp_all
  have i1: "(2::real) powi (- f) = 1 / 2 powi f" by (simp add: power_int_minus field_simps)
  have i2: "(2::real) powi (- (f + 1)) = 1 / 2 powi (f + 1)"
    by (simp only: power_int_minus inverse_eq_divide)
  from b(1) pf assms have up: "a \<le> 1 / 2 powi f" by (simp add: field_simps)
  from b(2) pf1 assms have lo: "1 / 2 powi (f + 1) < a" by (simp add: field_simps)
  have "(2::real) powi (- f + 1) = 2 powi (- f) * 2 powi 1" by (rule power_int_add) simp
  then have p3: "2 powi (- f + 1) = 2 * (2::real) powi (- f)" by (simp only: power_int_1_right mult.commute)
  have e: "binade a = (if a = 2 powi (- f) then - f else - (f + 1))"
    using False by (simp add: binade_def n_def f_def Let_def)
  show ?thesis
  proof (cases "a = 2 powi (- f)")
    case True
    with e have "binade a = - f" by simp
    then show ?thesis using True assms p3 by simp
  next
    case F: False
    with e have ee: "binade a = - (f + 1)" by simp
    have "- (f + 1) + 1 = - f" by simp
    then show ?thesis unfolding ee using lo up F i1 i2 by simp
  qed
qed

lemma binade_unique:
  assumes "0 < a" "2 powi e \<le> a" "a < 2 powi (e + 1)"
  shows "binade a = e"
proof (rule ccontr)
  assume ne: "binade a \<noteq> e"
  from binade_bounds[OF assms(1)] have b: "2 powi (binade a) \<le> a" "a < 2 powi (binade a + 1)" by auto
  show False
  proof (cases "binade a < e")
    case True
    then have "(2::real) powi (binade a + 1) \<le> 2 powi e" by (intro power_int_increasing) auto
    with b assms show False by linarith
  next
    case False
    with ne have "e + 1 \<le> binade a" by simp
    then have "(2::real) powi (e + 1) \<le> 2 powi (binade a)" by (intro power_int_increasing) auto
    with b assms show False by linarith
  qed
qed

lemma binade_mono:
  assumes "0 < a" "a \<le> b"
  shows "binade a \<le> binade b"
proof (rule ccontr)
  assume "\<not> binade a \<le> binade b"
  then have "binade b + 1 \<le> binade a" by simp
  then have "(2::real) powi (binade b + 1) \<le> 2 powi (binade a)" by (intro power_int_increasing) auto
  moreover from assms have "0 < b" by simp
  ultimately show False using binade_bounds[OF assms(1)] binade_bounds[OF \<open>0 < b\<close>] assms by linarith
qed

lemma pow_grid: "k \<le> e \<Longrightarrow> (2::real) powi e = of_int (2 ^ nat (e - k)) * 2 powi k"
proof -
  assume le: "k \<le> e"
  define m where "m = nat (e - k)"
  from le have "e = int m + k" by (simp add: m_def)
  then have "(2::real) powi e = 2 powi (int m + k)" by simp
  also have "\<dots> = 2 powi (int m) * 2 powi k" by (rule power_int_add) simp
  also have "\<dots> = of_int (2 ^ m) * 2 powi k" by simp
  finally show ?thesis by (simp add: m_def)
qed

lemma pow_pos: "0 < (2::real) powi k"
  by simp

lemma round_grid_grid_le: "x \<le> of_int n * 2 powi k \<Longrightarrow> round_grid k x \<le> of_int n * 2 powi k"
proof -
  assume "x \<le> of_int n * 2 powi k"
  then have "x / 2 powi k \<le> of_int n" by (simp add: field_simps)
  then have "round_half_even (x / 2 powi k) \<le> round_half_even (of_int n)" by (rule round_half_even_mono)
  then have "round_half_even (x / 2 powi k) \<le> n" by (simp add: round_half_even_of_int)
  then have "real_of_int (round_half_even (x / 2 powi k)) \<le> of_int n" by simp
  then show ?thesis unfolding round_grid_def by (simp add: mult_right_mono)
qed

lemma round_grid_grid_ge: "of_int n * 2 powi k \<le> x \<Longrightarrow> of_int n * 2 powi k \<le> round_grid k x"
proof -
  assume "of_int n * 2 powi k \<le> x"
  then have "of_int n \<le> x / 2 powi k" by (simp add: field_simps)
  then have "round_half_even (of_int n) \<le> round_half_even (x / 2 powi k)" by (rule round_half_even_mono)
  then have "n \<le> round_half_even (x / 2 powi k)" by (simp add: round_half_even_of_int)
  then have "of_int n \<le> real_of_int (round_half_even (x / 2 powi k))" by simp
  then show ?thesis unfolding round_grid_def by (simp add: mult_right_mono)
qed

lemma round_grid_mono: "x \<le> y \<Longrightarrow> round_grid k x \<le> round_grid k y"
proof -
  assume "x \<le> y"
  then have "x / 2 powi k \<le> y / 2 powi k" by (simp add: divide_right_mono)
  then have "round_half_even (x / 2 powi k) \<le> round_half_even (y / 2 powi k)" by (rule round_half_even_mono)
  then have "real_of_int (round_half_even (x / 2 powi k)) \<le> of_int (round_half_even (y / 2 powi k))" by simp
  then show ?thesis unfolding round_grid_def by (simp add: mult_right_mono)
qed

lemma round_grid_nonneg: "0 \<le> x \<Longrightarrow> 0 \<le> round_grid k x"
  using round_grid_grid_ge[of 0 k x] by simp

lemma round_mag_nonneg: "0 \<le> a \<Longrightarrow> 0 \<le> round_mag a"
  by (simp add: round_mag_def round_grid_nonneg)

lemma round_mag_mono:
  assumes "0 \<le> a" "a \<le> b"
  shows "round_mag a \<le> round_mag b"
proof (cases "a = 0")
  case True
  then show ?thesis using assms round_mag_nonneg[of b] by (simp add: round_mag_def)
next
  case False
  with assms have a: "0 < a" and b: "0 < b" by auto
  have r: "round_mag a = round_grid (ulp_exp a) a" "round_mag b = round_grid (ulp_exp b) b" using a b by (simp_all add: round_mag_def)
  define ea where "ea = max (binade a) (- 1022)"
  define eb where "eb = max (binade b) (- 1022)"
  have u: "ulp_exp a = ea - 52" "ulp_exp b = eb - 52" by (simp_all add: ulp_exp_def ea_def eb_def)
  from binade_mono[OF a assms(2)] have le: "ea \<le> eb" by (simp add: ea_def eb_def)
  show ?thesis
  proof (cases "ea = eb")
    case True
    then show ?thesis unfolding r u using assms(2) by (simp add: round_grid_mono)
  next
    case F: False
    with le have lt: "ea + 1 \<le> eb" by simp
    then have ebx: "eb = binade b" by (auto simp: ea_def eb_def)
    define P :: real where "P = 2 powi (ea + 1)"
    have "(2::real) powi (binade a + 1) \<le> 2 powi (ea + 1)"
      by (intro power_int_increasing) (auto simp: ea_def)
    with binade_bounds[OF a] have aP: "a \<le> P" by (simp add: P_def)
    have Pg: "P = of_int (2 ^ nat (ea + 1 - (ea - 52))) * 2 powi (ea - 52)"
      unfolding P_def by (rule pow_grid) simp
    from aP have 1: "round_grid (ea - 52) a \<le> P" using round_grid_grid_le[of a "2 ^ nat (ea + 1 - (ea - 52))" "ea - 52"] Pg by simp
    have "(2::real) powi (ea + 1) \<le> 2 powi eb" using lt by (intro power_int_increasing) auto
    then have Pb: "P \<le> 2 powi eb" by (simp add: P_def)
    have bg: "(2::real) powi eb = of_int (2 ^ nat (eb - (eb - 52))) * 2 powi (eb - 52)"
      by (rule pow_grid) simp
    from binade_bounds[OF b] ebx have "2 powi eb \<le> b" by simp
    then have 2: "2 powi eb \<le> round_grid (eb - 52) b"
      using round_grid_grid_ge[of "2 ^ nat (eb - (eb - 52))" "eb - 52" b] bg by simp
    from 1 2 Pb show ?thesis unfolding r u by linarith
  qed
qed

lemma round_fin_mono: "a \<le> b \<Longrightarrow> round_fin a \<le> round_fin b"
proof -
  assume ab: "a \<le> b"
  consider "0 \<le> a" | "a < 0" "0 \<le> b" | "b < 0" by linarith
  then show ?thesis
  proof cases
    case 1
    with ab have "round_mag \<bar>a\<bar> \<le> round_mag \<bar>b\<bar>" by (intro round_mag_mono) auto
    moreover have "0 \<le> round_mag \<bar>a\<bar>" "0 \<le> round_mag \<bar>b\<bar>" by (simp_all add: round_mag_nonneg)
    moreover have "round_mag 0 = 0" by (simp add: round_mag_def)
    ultimately show ?thesis using 1 ab by (cases "a = 0"; cases "b = 0") (auto simp: round_fin_def sgn_if)
  next
    case 2
    have "0 \<le> round_mag \<bar>a\<bar>" "0 \<le> round_mag \<bar>b\<bar>" by (simp_all add: round_mag_nonneg)
    then show ?thesis using 2 by (auto simp: round_fin_def sgn_if)
  next
    case 3
    with ab have "round_mag \<bar>b\<bar> \<le> round_mag \<bar>a\<bar>" by (intro round_mag_mono) auto
    then show ?thesis using 3 ab by (auto simp: round_fin_def sgn_if)
  qed
qed

lemma OVERFLOW_BOUND_pos: "0 < OVERFLOW_BOUND"
  by (simp add: OVERFLOW_BOUND_def)

lemma round_double_mono: "a \<le> b \<Longrightarrow> js_le (round_double a) (round_double b)"
  using round_fin_mono[of a b] OVERFLOW_BOUND_pos by (auto simp: round_double_def)

lemma round_double_between:
  assumes "lo \<le> z" "z \<le> hi" "round_double lo = Fin lo'" "round_double hi = Fin hi'"
  shows "\<exists>x. round_double z = Fin x \<and> lo' \<le> x \<and> x \<le> hi'"
proof -
  from round_double_mono[OF assms(1)] round_double_mono[OF assms(2)] assms(3,4)
  show ?thesis by (cases "round_double z") auto
qed

lemma ulp_exp_ge: "- 1074 \<le> ulp_exp a"
  by (simp add: ulp_exp_def)

lemma round_mag_grid: "\<exists>n::int. round_mag a = of_int n * 2 powi (- 1074)"
proof (cases "a = 0")
  case True
  then show ?thesis by (auto simp: round_mag_def intro: exI[of _ 0])
next
  case False
  have "(2::real) powi (ulp_exp a) = of_int (2 ^ nat (ulp_exp a - (- 1074))) * 2 powi (- 1074)"
    using ulp_exp_ge[of a] by (intro pow_grid) simp
  then have "round_mag a = of_int (round_half_even (a / 2 powi (ulp_exp a)) * 2 ^ nat (ulp_exp a - (- 1074))) * 2 powi (- 1074)"
    using False by (simp add: round_mag_def round_grid_def)
  then show ?thesis by blast
qed

lemma round_double_grid: "round_double x = Fin v \<Longrightarrow> \<exists>n::int. v = of_int n * 2 powi (- 1074)"
proof -
  assume "round_double x = Fin v"
  then have v: "v = sgn x * round_mag \<bar>x\<bar>" by (auto simp: round_double_def round_fin_def split: if_splits)
  from round_mag_grid[of "\<bar>x\<bar>"] obtain n :: int where n: "round_mag \<bar>x\<bar> = of_int n * 2 powi (- 1074)" by blast
  have "v = of_int (if x = 0 then 0 else if 0 < x then n else - n) * 2 powi (- 1074)"
    unfolding v n by (simp add: sgn_if)
  then show ?thesis by blast
qed

lemma round_mag_pos: "2 powi (- 1074) \<le> d \<Longrightarrow> 0 < round_mag d"
proof -
  assume d: "2 powi (- 1074) \<le> d"
  have "0 < (2::real) powi (- 1074)" by simp
  with d have pos: "0 < d" by linarith
  show ?thesis
  proof (cases "- 1022 \<le> binade d")
    case True
    then have u: "ulp_exp d = binade d - 52" by (simp add: ulp_exp_def)
    have g: "(2::real) powi (binade d) = of_int (2 ^ nat (binade d - (binade d - 52))) * 2 powi (binade d - 52)"
      by (rule pow_grid) simp
    from binade_bounds[OF pos] have "2 powi (binade d) \<le> d" by simp
    then have "2 powi (binade d) \<le> round_grid (binade d - 52) d"
      using round_grid_grid_ge[of "2 ^ nat (binade d - (binade d - 52))" "binade d - 52" d] g by simp
    moreover have "0 < (2::real) powi (binade d)" by simp
    ultimately have "0 < round_grid (binade d - 52) d" by linarith
    then show ?thesis using pos u by (simp add: round_mag_def)
  next
    case False
    then have u: "ulp_exp d = - 1074" by (simp add: ulp_exp_def)
    from d have "2 powi (- 1074) \<le> round_grid (- 1074) d"
      using round_grid_grid_ge[of 1 "- 1074" d] by simp
    moreover have "0 < (2::real) powi (- 1074)" by simp
    ultimately have "0 < round_grid (- 1074) d" by linarith
    then show ?thesis using pos u by (simp add: round_mag_def)
  qed
qed

lemma round_double_pos: "2 powi (- 1074) \<le> d \<Longrightarrow> js_lt (Fin 0) (round_double d)"
proof -
  assume d: "2 powi (- 1074) \<le> d"
  have "0 < (2::real) powi (- 1074)" by simp
  with d have pos: "0 < d" by linarith
  from round_mag_pos[OF d] pos OVERFLOW_BOUND_pos show ?thesis by (auto simp: round_double_def round_fin_def)
qed

lemma round_double_nonpos: "d \<le> 0 \<Longrightarrow> \<not> js_lt (Fin 0) (round_double d)"
  using round_mag_nonneg[of "\<bar>d\<bar>"] OVERFLOW_BOUND_pos
  by (auto simp: round_double_def round_fin_def sgn_if mult_le_0_iff)

lemma round_double_pow2:
  assumes "- 1022 \<le> e" "e \<le> 1023"
  shows "round_double (2 powi e) = Fin (2 powi e)"
proof -
  have pos: "0 < (2::real) powi e" by simp
  have "(2::real) powi e < 2 powi (e + 1)" by (intro power_int_strict_increasing) auto
  then have "binade (2 powi e) = e" using pos by (intro binade_unique) auto
  then have u: "ulp_exp (2 powi e) = e - 52" using assms by (simp add: ulp_exp_def)
  have g: "(2::real) powi e = of_int (2 ^ nat (e - (e - 52))) * 2 powi (e - 52)"
    by (rule pow_grid) simp
  have "round_grid (e - 52) (2 powi e) = 2 powi e"
    using round_grid_grid_le[of "2 powi e" "2 ^ nat (e - (e - 52))" "e - 52"]
      round_grid_grid_ge[of "2 ^ nat (e - (e - 52))" "e - 52" "2 powi e"] g by simp
  then have m: "round_mag (2 powi e) = 2 powi e" using u by (simp add: round_mag_def)
  have "(2::real) powi e \<le> 2 powi 1023" using assms by (intro power_int_increasing) auto
  also have "\<dots> < OVERFLOW_BOUND" by (simp add: OVERFLOW_BOUND_def)
  finally have "2 powi e < OVERFLOW_BOUND" .
  then have nge: "\<not> OVERFLOW_BOUND \<le> 2 powi e" by simp
  have nle: "\<not> 2 powi e \<le> - OVERFLOW_BOUND" using pos OVERFLOW_BOUND_pos by linarith
  have s: "sgn ((2::real) powi e) = 1" "\<bar>(2::real) powi e\<bar> = 2 powi e" by simp_all
  show ?thesis unfolding round_double_def round_fin_def s m using nge nle by (simp only: if_False mult_1)
qed

lemma round_double_0: "round_double 0 = Fin 0"
  using OVERFLOW_BOUND_pos by (simp add: round_double_def round_fin_def round_mag_def)

lemma round_double_1: "round_double 1 = Fin 1"
  using round_double_pow2[of 0] by simp

lemma round_double_overflow: "OVERFLOW_BOUND \<le> x \<Longrightarrow> round_double x = PInf"
  by (simp add: round_double_def)

subsection \<open>Evaluation\<close>

lemma ilog2_numeral:
  "ilog2 (numeral n) = (if (numeral n :: int) < 2 then 0 else 1 + ilog2 (numeral n div 2))"
  by (rule ilog2.simps)

lemma ilog2_small: "ilog2 0 = 0" "ilog2 1 = 0"
  by (simp_all add: ilog2.simps)

lemma OVERFLOW_BOUND_gt: "8 < OVERFLOW_BOUND"
  by (simp add: OVERFLOW_BOUND_def)

lemma round_double_small: "\<bar>x\<bar> \<le> 8 \<Longrightarrow> round_double x = Fin (round_fin x)"
  using OVERFLOW_BOUND_gt by (auto simp: round_double_def)

lemmas round_eval = round_double_small round_fin_def round_mag_def ulp_exp_def binade_def
  round_grid_def round_half_even_def ilog2_numeral ilog2_small lit_def Let_def

subsection \<open>The rounding error below 2\<close>

lemma round_half_even_err: "\<bar>of_int (round_half_even q) - q\<bar> \<le> 1 / 2"
  unfolding round_half_even_def Let_def by (auto simp: abs_if) linarith+

lemma round_grid_err: "\<bar>round_grid k x - x\<bar> \<le> 2 powi k / 2"
proof -
  have p: "0 < (2::real) powi k" by simp
  define q where "q = x / 2 powi k"
  have x: "x = q * 2 powi k" using p by (simp add: q_def)
  have "round_grid k x - x = (of_int (round_half_even q) - q) * 2 powi k"
    unfolding round_grid_def q_def[symmetric] by (simp add: x algebra_simps)
  then have "\<bar>round_grid k x - x\<bar> = \<bar>of_int (round_half_even q) - q\<bar> * 2 powi k"
    using p by (simp add: abs_mult)
  also have "\<dots> \<le> 1 / 2 * 2 powi k"
    using round_half_even_err[of q] p by (intro mult_right_mono) auto
  finally show ?thesis by simp
qed

lemma round_fin_err:
  assumes "\<bar>x\<bar> < 2"
  shows "\<bar>round_fin x - x\<bar> \<le> 2 powi (- 53)"
proof (cases "x = 0")
  case True
  then show ?thesis by (simp add: round_fin_def round_mag_def)
next
  case False
  define a where "a = \<bar>x\<bar>"
  from False assms have a: "0 < a" "a < 2" by (simp_all add: a_def)
  have "binade a < 1"
  proof (rule ccontr)
    assume "\<not> binade a < 1"
    then have "1 \<le> binade a" by simp
    then have "(2::real) powi 1 \<le> 2 powi (binade a)" by (intro power_int_increasing) auto
    with binade_bounds[OF a(1)] a(2) show False by simp
  qed
  then have k: "ulp_exp a \<le> - 52" by (simp add: ulp_exp_def)
  then have "(2::real) powi (ulp_exp a) \<le> 2 powi (- 52)" by (intro power_int_increasing) auto
  moreover have "(2::real) powi (- 52) / 2 = 2 powi (- 53)" by (simp add: power_int_minus)
  ultimately have h: "2 powi (ulp_exp a) / 2 \<le> (2::real) powi (- 53)" by linarith
  have m: "\<bar>round_mag a - a\<bar> \<le> 2 powi (- 53)"
    using round_grid_err[of "ulp_exp a" a] h a by (simp add: round_mag_def)
  have "round_fin x - x = sgn x * (round_mag a - a)"
    by (simp add: round_fin_def a_def algebra_simps sgn_if)
  then have "\<bar>round_fin x - x\<bar> = \<bar>round_mag a - a\<bar>"
    using False by (simp add: abs_mult sgn_if)
  with m show ?thesis by simp
qed

lemma round_double_err:
  assumes "\<bar>x\<bar> < 2"
  shows "\<exists>y. round_double x = Fin y \<and> \<bar>y - x\<bar> \<le> 2 powi (- 53)"
proof -
  from assms have "\<bar>x\<bar> \<le> 8" by simp
  then have "round_double x = Fin (round_fin x)" by (rule round_double_small)
  with round_fin_err[OF assms] show ?thesis by simp
qed

text \<open>A rounded result between two doubles, with its error.\<close>

lemma round_double_unit:
  assumes "0 \<le> z" "z \<le> hi" "round_double hi = Fin hi" "hi < 2"
  shows "\<exists>y. round_double z = Fin y \<and> 0 \<le> y \<and> y \<le> hi \<and> \<bar>y - z\<bar> \<le> 2 powi (- 53)"
proof -
  from round_double_between[OF assms(1,2) round_double_0 assms(3)]
  obtain y where y: "round_double z = Fin y" "0 \<le> y" "y \<le> hi" by blast
  from assms have "\<bar>z\<bar> < 2" by simp
  from round_double_err[OF this] y show ?thesis by auto
qed

section \<open>Properties of the capability-budget gate\<close>


lemma acquire_all_same_window:
  "\<forall>t\<in>set ts. t < rateLimitResetTime g \<Longrightarrow>
   fst (acquire_all ts g) = map (\<lambda>i. requestCount g + i < 14) [0..<length ts] \<and>
   rateLimitResetTime (snd (acquire_all ts g)) = rateLimitResetTime g"
proof (induction ts arbitrary: g)
  case Nil
  then show ?case by simp
next
  case (Cons t ts)
  obtain ok g1 where c: "checkRateLimit t g = (ok, g1)" by (cases "checkRateLimit t g")
  from Cons.prems have lt: "t < rateLimitResetTime g" by simp
  from c lt have ok: "ok = (requestCount g < 14)"
    and r1: "rateLimitResetTime g1 = rateLimitResetTime g"
    and c1: "requestCount g1 = (if requestCount g < 14 then requestCount g + 1 else requestCount g)"
    by (auto simp: checkRateLimit_def Let_def split: if_splits)
  from Cons.prems r1 have "\<forall>t\<in>set ts. t < rateLimitResetTime g1" by simp
  from Cons.IH[OF this] have
    ih: "fst (acquire_all ts g1) = map (\<lambda>i. requestCount g1 + i < 14) [0..<length ts]"
    and ihr: "rateLimitResetTime (snd (acquire_all ts g1)) = rateLimitResetTime g1" by auto
  have shift: "map (\<lambda>i. requestCount g1 + i < 14) [0..<length ts]
      = map (\<lambda>i. requestCount g + i < 14) (map Suc [0..<length ts])"
    using c1 by (auto simp: map_eq_conv)
  have "[0..<length (t # ts)] = 0 # map Suc [0..<length ts]"
    by (simp add: upt_conv_Cons map_Suc_upt del: upt_Suc)
  then show ?case using c ok ih ihr r1 shift
    by (simp add: split_beta del: upt_Suc)
qed

lemma checkRateLimit_reset:
  "rateLimitResetTime g \<le> now \<Longrightarrow>
   checkRateLimit now g = (True, \<lparr>requestCount = 1, rateLimitResetTime = now + 60000\<rparr>)"
  by (simp add: checkRateLimit_def)

lemma acquire_all_append:
  "acquire_all (xs @ ys) g =
     (fst (acquire_all xs g) @ fst (acquire_all ys (snd (acquire_all xs g))),
      snd (acquire_all ys (snd (acquire_all xs g))))"
  by (induction xs arbitrary: g) (simp_all add: split_beta)

lemma acquire_all_then_reset:
  assumes "\<forall>t\<in>set ts. t < rateLimitResetTime g" "rateLimitResetTime g \<le> t'"
  shows "fst (acquire_all (ts @ [t']) g) = map (\<lambda>i. requestCount g + i < 14) [0..<length ts] @ [True]"
proof -
  from acquire_all_same_window[OF assms(1)]
  have a: "fst (acquire_all ts g) = map (\<lambda>i. requestCount g + i < 14) [0..<length ts]"
    and r: "rateLimitResetTime (snd (acquire_all ts g)) = rateLimitResetTime g" by auto
  from r assms(2) have "rateLimitResetTime (snd (acquire_all ts g)) \<le> t'" by simp
  then have "fst (checkRateLimit t' (snd (acquire_all ts g)))" by (simp add: checkRateLimit_reset)
  then have "fst (acquire_all [t'] (snd (acquire_all ts g))) = [True]" by (simp add: split_beta)
  with a show ?thesis by (simp add: acquire_all_append)
qed

text \<open>
  Claim C7. The quota is 14 and the window is 60000 ms. (a) From the state in which the
  module is loaded, of the calls made before the first reset time (60000 ms after the
  load) exactly the first 14 are allowed and every later one is denied, so the 15th is
  denied; a call made once those 60000 ms have elapsed is allowed again. (b) The same holds
  for a window opened by a call \<open>t0\<close> at or after the reset time, whatever the state: that
  call is the first of the new window, the window ends at \<open>t0 + 60000\<close>, of the calls
  before that instant exactly the first 14 (the opening call included) are allowed, and a
  call at or after it is allowed again. (c) Once the reset time has been reached, the next
  call is allowed, whatever the count.
\<close>

theorem budget_gate_quota:
  "((\<forall>t\<in>set ts. t < loaded + 60000) \<and> loaded + 60000 \<le> t' \<longrightarrow>
      fst (acquire_all (ts @ [t']) (initial_gate loaded)) = map (\<lambda>i. i < 14) [0..<length ts] @ [True])
   \<and> (rateLimitResetTime g \<le> t0 \<and> (\<forall>t\<in>set ts. t < t0 + 60000) \<and> t0 + 60000 \<le> t' \<longrightarrow>
      fst (acquire_all (t0 # ts @ [t']) g) = map (\<lambda>i. i < 14) [0..<Suc (length ts)] @ [True]
      \<and> rateLimitResetTime (snd (acquire_all (t0 # ts) g)) = t0 + 60000)
   \<and> (rateLimitResetTime g \<le> t' \<longrightarrow> fst (checkRateLimit t' g))"
proof (intro conjI impI)
  assume a: "(\<forall>t\<in>set ts. t < loaded + 60000) \<and> loaded + 60000 \<le> t'"
  then have "\<forall>t\<in>set ts. t < rateLimitResetTime (initial_gate loaded)"
    and "rateLimitResetTime (initial_gate loaded) \<le> t'" by (simp_all add: initial_gate_def)
  from acquire_all_then_reset[OF this]
  show "fst (acquire_all (ts @ [t']) (initial_gate loaded)) = map (\<lambda>i. i < 14) [0..<length ts] @ [True]"
    by (simp add: initial_gate_def)
next
  assume a: "rateLimitResetTime g \<le> t0 \<and> (\<forall>t\<in>set ts. t < t0 + 60000) \<and> t0 + 60000 \<le> t'"
  let ?g1 = "\<lparr>requestCount = 1, rateLimitResetTime = t0 + 60000\<rparr>"
  from a have c: "checkRateLimit t0 g = (True, ?g1)" by (simp add: checkRateLimit_reset)
  from a have w: "\<forall>t\<in>set ts. t < rateLimitResetTime ?g1" and e: "rateLimitResetTime ?g1 \<le> t'" by simp_all
  from acquire_all_then_reset[OF w e]
  have r: "fst (acquire_all (ts @ [t']) ?g1) = map (\<lambda>i. Suc i < 14) [0..<length ts] @ [True]" by simp
  have u: "[0..<Suc (length ts)] = 0 # map Suc [0..<length ts]"
    by (simp add: upt_conv_Cons map_Suc_upt del: upt_Suc)
  show "fst (acquire_all (t0 # ts @ [t']) g) = map (\<lambda>i. i < 14) [0..<Suc (length ts)] @ [True]"
    unfolding u using c r by (simp add: split_beta comp_def del: upt_Suc)
  from acquire_all_same_window[OF w]
  show "rateLimitResetTime (snd (acquire_all (t0 # ts) g)) = t0 + 60000"
    using c by (simp add: split_beta)
next
  assume "rateLimitResetTime g \<le> t'"
  then show "fst (checkRateLimit t' g)" by (simp add: checkRateLimit_reset)
qed

theorem budget_gate_quota_witness:
  "fst (acquire_all (replicate 15 5 @ [60000]) (initial_gate 0)) = replicate 14 True @ [False, True]
   \<and> fst (acquire_all (replicate 15 59999 @ [70000]) (initial_gate 0)) = replicate 14 True @ [False, True]
   \<and> fst (acquire_all (0 # replicate 14 59999 @ [60000]) \<lparr>requestCount = 14, rateLimitResetTime = 0\<rparr>)
       = replicate 14 True @ [False, True]
   \<and> rateLimitResetTime (snd (acquire_all (0 # replicate 14 59999) \<lparr>requestCount = 14, rateLimitResetTime = 0\<rparr>))
       = 60000
   \<and> fst (acquire_all (0 # replicate 14 59999 @ [70000]) \<lparr>requestCount = 14, rateLimitResetTime = 0\<rparr>)
       = replicate 14 True @ [False, True]
   \<and> fst (checkRateLimit 60000 \<lparr>requestCount = 14, rateLimitResetTime = 60000\<rparr>)"
  using budget_gate_quota[where ts = "replicate 15 5" and loaded = 0 and t' = 60000
      and g = "\<lparr>requestCount = 14, rateLimitResetTime = 60000\<rparr>" and ?t0.0 = 60000]
    budget_gate_quota[where ts = "replicate 15 59999" and loaded = 0 and t' = 70000
      and g = "\<lparr>requestCount = 14, rateLimitResetTime = 60000\<rparr>" and ?t0.0 = 60000]
    budget_gate_quota[where ts = "replicate 14 59999" and loaded = 0 and t' = 60000
      and g = "\<lparr>requestCount = 14, rateLimitResetTime = 0\<rparr>" and ?t0.0 = 0]
    budget_gate_quota[where ts = "replicate 14 59999" and loaded = 0 and t' = 70000
      and g = "\<lparr>requestCount = 14, rateLimitResetTime = 0\<rparr>" and ?t0.0 = 0]
  by (simp add: upt_rec numeral_eq_Suc checkRateLimit_def initial_gate_def)
section \<open>Properties of the analysis normalisation\<close>

subsection \<open>Stored tags\<close>

lemmas tags_eval = stored_tags_def memory_tags_def normalizeAnalysis_def getOfflineMood_def
  PARSE_FALLBACK_def Let_def

text \<open>
  Claim C3, evaluated on the code. The offline placeholder carries the tags
  \<open>Offline\<close> and \<open>Auto-classified\<close>; \<open>normalizeAnalysis\<close> keeps them as they are, the
  schema's cast leaves strings alone, and they are what the Memory document stores. The
  sweep asks for the string \<open>offline\<close>, so it selects no memory that the offline path
  stored, on either of the two ways into it.
\<close>

theorem offline_tags_not_selected:
  "stored_tags numberToString (GateDenied i) = Some [JStr ''Offline'', JStr ''Auto-classified'']
   \<and> stored_tags numberToString (QuotaError i) = Some [JStr ''Offline'', JStr ''Auto-classified'']
   \<and> \<not> sweep_selects [JStr ''Offline'', JStr ''Auto-classified'']"
  by (simp add: tags_eval sweep_selects_def)

text \<open>
  Claim C4 as stated fails, in two ways. When the generative model's answer cannot be
  parsed, the stored tags are \<open>Raw\<close> and \<open>Unsorted\<close>, which are not lower-cased. When
  the answer carries a tag with surrounding white space, the tag is stored with it, so it
  is not trimmed.
\<close>

theorem stored_tags_not_TagSet:
  "stored_tags sample_numberToString OtherError = Some [JStr ''Raw'', JStr ''Unsorted'']
   \<and> toLowerCase ''Raw'' \<noteq> ''Raw''
   \<and> \<not> is_TagSet [JStr ''Raw'', JStr ''Unsorted'']
   \<and> stored_tags sample_numberToString (Parsed padded_answer) = Some [JStr '' sea '']
   \<and> toLowerCase '' sea '' = '' sea '' \<and> trim '' sea '' \<noteq> '' sea ''
   \<and> \<not> is_TagSet [JStr '' sea '']"
proof -
  have s: "stored_tags sample_numberToString OtherError = Some [JStr ''Raw'', JStr ''Unsorted'']"
    by (simp add: tags_eval)
  have p: "stored_tags sample_numberToString (Parsed padded_answer) = Some [JStr '' sea '']"
    by (simp add: tags_eval padded_answer_def)
  have l: "toLowerCase ''Raw'' \<noteq> ''Raw''" by code_simp
  have k: "toLowerCase '' sea '' = '' sea ''" by code_simp
  have t: "trim '' sea '' \<noteq> '' sea ''" by code_simp
  from s p l k t show ?thesis by (simp add: is_TagSet_def)
qed

lemma castString_truthy:
  assumes "\<And>n. numberToString n \<noteq> []" "truthy v" "castString numberToString v = Some c"
  shows "is_nonempty_string c"
proof (cases v)
  case (JObj kvs)
  define r where "r = get_field (JObj kvs) ''_id''"
  have "castString numberToString (JObj kvs)
          = (case r of JStr s \<Rightarrow> (if s \<noteq> [] then Some (JStr s) else None) | _ \<Rightarrow> None)"
    by (simp add: r_def del: get_field.simps)
  with assms(3) JObj
  have "(case r of JStr s \<Rightarrow> (if s \<noteq> [] then Some (JStr s) else None) | _ \<Rightarrow> None) = Some c"
    by simp
  then show ?thesis by (cases r) (auto split: if_splits)
qed (use assms in auto)

lemma cast_all_truthy:
  assumes "\<And>n. numberToString n \<noteq> []"
  shows "list_all truthy vs \<Longrightarrow> cast_all numberToString vs = Some cs \<Longrightarrow>
         length cs = length vs \<and> list_all is_nonempty_string cs"
proof (induction vs arbitrary: cs)
  case Nil
  then show ?case by simp
next
  case (Cons v vs)
  from Cons.prems(2) obtain c cs' where c: "castString numberToString v = Some c"
    and r: "cast_all numberToString vs = Some cs'" and cs: "cs = c # cs'"
    by (auto split: option.splits)
  from Cons.prems(1) have "truthy v" "list_all truthy vs" by simp_all
  with castString_truthy[OF assms _ c] Cons.IH[OF _ r] cs show ?case by simp
qed

lemma memory_tags_truthy: "list_all truthy (memory_tags oc) \<and> length (memory_tags oc) \<le> 5"
proof -
  have t: "list_all truthy (memory_tags oc)"
  proof (cases oc)
    case (Parsed v)
    have "\<And>ts. list_all truthy (take 5 (filter truthy ts))"
      by (auto simp: list_all_iff dest: in_set_takeD)
    then show ?thesis using Parsed
      by (simp add: memory_tags_def normalizeAnalysis_def Let_def split: jsval.splits)
  qed (simp_all add: tags_eval)
  have l: "length (memory_tags oc) \<le> 5"
    by (cases oc) (simp_all add: tags_eval split: jsval.splits)
  from t l show ?thesis by simp
qed

text \<open>
  Claim C4, amended. For every ingestion event that creates a Memory, the tags stored on
  it are at most 12 strings, each non-empty (they are at most 5). They need not be
  lower-cased or trimmed. The rendering of a number is never the empty string.
\<close>

theorem stored_tags_strings:
  assumes "\<And>n. numberToString n \<noteq> []" and "stored_tags numberToString oc = Some tags"
  shows "is_nonempty_strings tags \<and> length tags \<le> 5"
proof -
  from memory_tags_truthy[of oc]
  have t: "list_all truthy (memory_tags oc)" and l: "length (memory_tags oc) \<le> 5" by auto
  from assms(2) have "cast_all numberToString (memory_tags oc) = Some tags"
    by (simp add: stored_tags_def)
  from cast_all_truthy[OF assms(1) t this] l show ?thesis
    by (simp add: is_nonempty_strings_def)
qed

theorem stored_tags_strings_witness:
  "(\<forall>n. sample_numberToString n \<noteq> [])
   \<and> stored_tags sample_numberToString (Parsed mixed_answer) = Some [JStr ''Sea'', JStr ''true'', JStr ''7'']
   \<and> is_nonempty_strings [JStr ''Sea'', JStr ''true'', JStr ''7'']"
proof -
  have n: "\<And>n. sample_numberToString n \<noteq> []" by (simp add: sample_numberToString_def)
  have s: "stored_tags sample_numberToString (Parsed mixed_answer)
             = Some [JStr ''Sea'', JStr ''true'', JStr ''7'']"
    by (simp add: tags_eval mixed_answer_def sample_numberToString_def)
  from stored_tags_strings[OF n s] n s show ?thesis by simp
qed

text \<open>A tag that is a plain object is a cast error: nothing is stored.\<close>

lemma stored_tags_cast_error: "stored_tags numberToString (Parsed object_answer) = None"
  by (simp add: tags_eval object_answer_def)

subsection \<open>Axes of a normalised theme vector\<close>

lemma cleaned_entries_length: "length (cleaned_entries es) \<le> 4"
  by (simp add: cleaned_entries_def)

lemma normalizeAxis_nonempty: "normalizeAxis v fb \<noteq> []"
  by (auto simp: normalizeAxis_def Let_def split: jsval.splits)

lemma normalizeAxis_length: "length (normalizeAxis v fb) \<le> 4"
  using cleaned_entries_length by (auto simp: normalizeAxis_def Let_def split: jsval.splits)

lemma normalizeAxis_fallback:
  "survivors v = [] \<Longrightarrow> normalizeAxis v fb = [\<lparr>label = fb, weight = Fin 1\<rparr>]"
  by (auto simp: normalizeAxis_def survivors_def Let_def split: jsval.splits)

text \<open>
  What holds of every axis on every input: it is not empty, it has at most 4 entries, and
  when no entry survives cleaning (also when the input is not an array) it is the fallback
  label with weight 1.
\<close>

lemma normalizeThemeVector_shape:
  assumes "i < 5"
  shows "axes_of (normalizeThemeVector tv) ! i \<noteq> []
         \<and> length (axes_of (normalizeThemeVector tv) ! i) \<le> 4
         \<and> (survivors (get_field tv (axis_names ! i)) = [] \<longrightarrow>
              axes_of (normalizeThemeVector tv) ! i = [\<lparr>label = axis_fallbacks ! i, weight = Fin 1\<rparr>])"
proof -
  from assms have "i = 0 \<or> i = 1 \<or> i = 2 \<or> i = 3 \<or> i = 4" by arith
  then have ax: "axes_of (normalizeThemeVector tv) ! i
       = normalizeAxis (get_field tv (axis_names ! i)) (axis_fallbacks ! i)"
    by (auto simp: axes_of_def normalizeThemeVector_def axis_names_def axis_fallbacks_def)
  show ?thesis
    unfolding ax
    using normalizeAxis_nonempty normalizeAxis_length normalizeAxis_fallback by blast
qed

lemmas axis_eval = normalizeThemeVector_def normalizeAxis_def cleaned_entries_def
  List.map_filter_def clean_entry_def total_weight_def sum_weights_def
  trim_def is_space_def Let_def

text \<open>
  Claim C5, evaluated on the code. The weights \<open>2^1023\<close> and \<open>2^1023\<close> are finite doubles.
  \<open>normalizeAxis\<close> adds them up to \<open>Infinity\<close>, which passes its test \<open>total <= 0\<close>, and
  divides each weight by it: every normalised weight is \<open>2^1023 / Infinity = 0\<close>, and the
  weights of the axis sum to 0, not to 1.
\<close>

theorem normalizeAxis_overflow_sum:
  "emotionalCore (normalizeThemeVector (JObj [(''emotionalCore'', overflow_axis)]))
     = [\<lparr>label = ''a'', weight = Fin 0\<rparr>, \<lparr>label = ''b'', weight = Fin 0\<rparr>]
   \<and> sum_weights (emotionalCore (normalizeThemeVector (JObj [(''emotionalCore'', overflow_axis)]))) = Fin 0
   \<and> \<not> axis_ok (emotionalCore (normalizeThemeVector (JObj [(''emotionalCore'', overflow_axis)])))"
proof -
  have p: "round_double (2 ^ 1023) = Fin (2 ^ 1023)"
    using round_double_pow2[of 1023] by simp
  have o: "round_double (2 ^ 1023 + 2 ^ 1023) = PInf"
    by (rule round_double_overflow) (simp add: OVERFLOW_BOUND_def)
  have e: "emotionalCore (normalizeThemeVector (JObj [(''emotionalCore'', overflow_axis)]))
     = [\<lparr>label = ''a'', weight = Fin 0\<rparr>, \<lparr>label = ''b'', weight = Fin 0\<rparr>]"
    using p o by (simp add: overflow_axis_def axis_eval)
  have s: "sum_weights [\<lparr>label = ''a'', weight = Fin 0\<rparr>, \<lparr>label = ''b'', weight = Fin 0\<rparr>] = Fin 0"
    by (simp add: sum_weights_def round_double_0)
  from e s show ?thesis by (simp add: axis_ok_def)
qed

section \<open>Properties of the family-match scorer and of the embedding call\<close>

lemmas score_eval = scoreFamilyMatch_def themeSimilarity_def axisSimilarity_def axisToMap_def
  tagSimilarity_def normalizeTags_def js_Set_def map_set_def map_has_def get_or0_def
  isValidEmbedding_def toLowerCase_def lower_char_def trim_def is_space_def num_or_def
  js_gt_def js_ge_def sample_vector_def sample_candidate_def sample_family_def unit_entry_def
  half_cs_def SENTINEL_def ones8_def Let_def

lemma weighted_mean_bounds:
  assumes e: "0 \<le> e" "e \<le> 1" and t: "0 \<le> t" "t \<le> 1" and g: "0 \<le> g" "g \<le> 1"
    and a: "round_double a = Fin a" "0 \<le> a" and b: "round_double b = Fin b" "0 \<le> b"
    and c: "round_double c = Fin c" "0 \<le> c"
    and ab: "round_double (a + b) = Fin ab" "a + b < 2"
    and abc: "round_double (ab + c) = Fin 1" "ab + c < 2"
  shows "js_add (js_add (Fin a) (Fin b)) (Fin c) = Fin 1
         \<and> (\<exists>s. weighted_mean (Fin e, Fin a) (Fin t, Fin b) (Fin g, Fin c) = Fin s \<and> 0 \<le> s \<and> s \<le> 1
                \<and> \<bar>s - (e * a + t * b + g * c)\<bar> \<le> 6 * 2 powi (- 53))"
proof -
  have a2: "a < 2" and b2: "b < 2" using a b ab by linarith+
  from round_double_between[OF _ _ round_double_0 ab(1), of 0] a b have ab0: "0 \<le> ab" by auto
  then have c2: "c < 2" using abc by linarith
  have ea: "0 \<le> e * a" "e * a \<le> a" using e a by (simp_all add: mult_left_le_one_le)
  have tb: "0 \<le> t * b" "t * b \<le> b" using t b by (simp_all add: mult_left_le_one_le)
  have gc: "0 \<le> g * c" "g * c \<le> c" using g c by (simp_all add: mult_left_le_one_le)
  from round_double_unit[OF ea a(1) a2] obtain x1
    where x1: "round_double (e * a) = Fin x1" "0 \<le> x1" "x1 \<le> a" "\<bar>x1 - e * a\<bar> \<le> 2 powi (- 53)" by blast
  from round_double_unit[OF tb b(1) b2] obtain x2
    where x2: "round_double (t * b) = Fin x2" "0 \<le> x2" "x2 \<le> b" "\<bar>x2 - t * b\<bar> \<le> 2 powi (- 53)" by blast
  from round_double_unit[OF gc c(1) c2] obtain x3
    where x3: "round_double (g * c) = Fin x3" "0 \<le> x3" "x3 \<le> c" "\<bar>x3 - g * c\<bar> \<le> 2 powi (- 53)" by blast
  have "0 \<le> x1 + x2" "x1 + x2 \<le> a + b" using x1 x2 by linarith+
  from round_double_between[OF this round_double_0 ab(1)] obtain s1
    where s1: "round_double (x1 + x2) = Fin s1" "0 \<le> s1" "s1 \<le> ab" by blast
  have "\<bar>x1 + x2\<bar> < 2" using x1 x2 ab by linarith
  from round_double_err[OF this] s1 have s1e: "\<bar>s1 - (x1 + x2)\<bar> \<le> 2 powi (- 53)" by auto
  have "0 \<le> s1 + x3" "s1 + x3 \<le> ab + c" using s1 x3 by linarith+
  from round_double_between[OF this round_double_0 abc(1)] obtain s2
    where s2: "round_double (s1 + x3) = Fin s2" "0 \<le> s2" "s2 \<le> 1" by blast
  have "\<bar>s1 + x3\<bar> < 2" using s1 x3 abc by linarith
  from round_double_err[OF this] s2 have s2e: "\<bar>s2 - (s1 + x3)\<bar> \<le> 2 powi (- 53)" by auto
  from round_double_between[OF s2(2,3) round_double_0 round_double_1] obtain s
    where s: "round_double s2 = Fin s" "0 \<le> s" "s \<le> 1" by blast
  have "\<bar>s2\<bar> < 2" using s2 by linarith
  from round_double_err[OF this] s have se: "\<bar>s - s2\<bar> \<le> 2 powi (- 53)" by auto
  have tw: "js_add (js_add (Fin a) (Fin b)) (Fin c) = Fin 1" using ab abc by simp
  have "weighted_mean (Fin e, Fin a) (Fin t, Fin b) (Fin g, Fin c) = Fin s"
    unfolding weighted_mean_def fst_conv snd_conv tw using x1 x2 x3 s1 s2 s by simp
  moreover have "\<bar>s - (e * a + t * b + g * c)\<bar> \<le> 6 * 2 powi (- 53)"
    using x1(4) x2(4) x3(4) s1e s2e se by linarith
  ultimately show ?thesis using tw s by blast
qed

lemma weights_valid:
  "lit (6 / 10) = Fin (5404319552844595 / 9007199254740992)"
  "lit (25 / 100) = Fin (1 / 4)"
  "lit (15 / 100) = Fin (5404319552844595 / 36028797018963968)"
  "round_double (5404319552844595 / 9007199254740992) = Fin (5404319552844595 / 9007199254740992)"
  "round_double (1 / 4) = Fin (1 / 4)"
  "round_double (5404319552844595 / 36028797018963968) = Fin (5404319552844595 / 36028797018963968)"
  "round_double (5404319552844595 / 9007199254740992 + 1 / 4) = Fin (7656119366529843 / 9007199254740992)"
  "round_double (7656119366529843 / 9007199254740992 + 5404319552844595 / 36028797018963968) = Fin 1"
  by (simp_all add: round_eval)

lemma weights_invalid:
  "lit (65 / 100) = Fin (5854679515581645 / 9007199254740992)"
  "lit (35 / 100) = Fin (3152519739159347 / 9007199254740992)"
  "round_double (5854679515581645 / 9007199254740992) = Fin (5854679515581645 / 9007199254740992)"
  "round_double (3152519739159347 / 9007199254740992) = Fin (3152519739159347 / 9007199254740992)"
  "round_double (0 + 5854679515581645 / 9007199254740992) = Fin (5854679515581645 / 9007199254740992)"
  "round_double (5854679515581645 / 9007199254740992 + 3152519739159347 / 9007199254740992) = Fin 1"
  by (simp_all add: round_eval)

lemma mean_valid:
  assumes "0 \<le> e" "e \<le> 1" "0 \<le> t" "t \<le> 1" "0 \<le> g" "g \<le> 1"
  shows "js_add (js_add (lit (6 / 10)) (lit (25 / 100))) (lit (15 / 100)) = Fin 1
         \<and> (\<exists>s. weighted_mean (Fin e, lit (6 / 10)) (Fin t, lit (25 / 100)) (Fin g, lit (15 / 100)) = Fin s
                \<and> 0 \<le> s \<and> s \<le> 1
                \<and> \<bar>s - (e * (6 / 10) + t * (25 / 100) + g * (15 / 100))\<bar> \<le> 1 / 10 ^ 15)"
proof -
  let ?a = "5404319552844595 / 9007199254740992 :: real"
  let ?b = "1 / 4 :: real"
  let ?c = "5404319552844595 / 36028797018963968 :: real"
  from weighted_mean_bounds[OF assms weights_valid(4) _ weights_valid(5) _ weights_valid(6) _
      weights_valid(7) _ weights_valid(8)]
  obtain s where tw: "js_add (js_add (Fin ?a) (Fin ?b)) (Fin ?c) = Fin 1"
    and s: "weighted_mean (Fin e, Fin ?a) (Fin t, Fin ?b) (Fin g, Fin ?c) = Fin s" "0 \<le> s" "s \<le> 1"
      "\<bar>s - (e * ?a + t * ?b + g * ?c)\<bar> \<le> 6 * 2 powi (- 53)" by auto
  have "\<bar>e * ?a - e * (6 / 10)\<bar> \<le> 2 powi (- 53)" "\<bar>g * ?c - g * (15 / 100)\<bar> \<le> 2 powi (- 53)"
    using assms by (auto simp: abs_if power_int_minus) 
  with s(4) have "\<bar>s - (e * (6 / 10) + t * (25 / 100) + g * (15 / 100))\<bar> \<le> 8 * 2 powi (- 53)"
    by linarith
  moreover have "8 * 2 powi (- 53) \<le> (1 / 10 ^ 15 :: real)" by (simp add: power_int_minus)
  ultimately have "\<bar>s - (e * (6 / 10) + t * (25 / 100) + g * (15 / 100))\<bar> \<le> 1 / 10 ^ 15" by linarith
  with tw s show ?thesis unfolding weights_valid(1,2,3) by blast
qed

lemma mean_invalid:
  assumes "0 \<le> t" "t \<le> 1" "0 \<le> g" "g \<le> 1"
  shows "js_add (js_add (Fin 0) (lit (65 / 100))) (lit (35 / 100)) = Fin 1
         \<and> (\<exists>s. weighted_mean (Fin 0, Fin 0) (Fin t, lit (65 / 100)) (Fin g, lit (35 / 100)) = Fin s
                \<and> 0 \<le> s \<and> s \<le> 1
                \<and> \<bar>s - (t * (65 / 100) + g * (35 / 100))\<bar> \<le> 1 / 10 ^ 15)"
proof -
  let ?b = "5854679515581645 / 9007199254740992 :: real"
  let ?c = "3152519739159347 / 9007199254740992 :: real"
  have z: "(0::real) \<le> 0" "(0::real) \<le> 1" by simp_all
  from weighted_mean_bounds[OF z assms round_double_0 _ weights_invalid(3) _ weights_invalid(4) _
      weights_invalid(5) _ weights_invalid(6)]
  obtain s where tw: "js_add (js_add (Fin 0) (Fin ?b)) (Fin ?c) = Fin 1"
    and s: "weighted_mean (Fin 0, Fin 0) (Fin t, Fin ?b) (Fin g, Fin ?c) = Fin s" "0 \<le> s" "s \<le> 1"
      "\<bar>s - (0 * 0 + t * ?b + g * ?c)\<bar> \<le> 6 * 2 powi (- 53)" by auto
  have d: "\<bar>t * ?b - t * (65 / 100)\<bar> \<le> 2 powi (- 53)" "\<bar>g * ?c - g * (35 / 100)\<bar> \<le> 2 powi (- 53)"
    using assms by (auto simp: abs_if power_int_minus)
  have "0 * 0 + t * ?b + g * ?c = t * ?b + g * ?c" by simp
  with s(4) have "\<bar>s - (t * ?b + g * ?c)\<bar> \<le> 6 * 2 powi (- 53)" by (simp only:)
  with d have "\<bar>s - (t * (65 / 100) + g * (35 / 100))\<bar> \<le> 8 * 2 powi (- 53)"
    by linarith
  moreover have "8 * 2 powi (- 53) \<le> (1 / 10 ^ 15 :: real)" by (simp add: power_int_minus)
  ultimately have "\<bar>s - (t * (65 / 100) + g * (35 / 100))\<bar> \<le> 1 / 10 ^ 15" by linarith
  with tw s show ?thesis unfolding weights_invalid(1,2) by blast
qed

lemma scoreFamilyMatch_valid:
  assumes "isValidEmbedding (Some (c_embedding cand)) \<and> isValidEmbedding (f_embedding family)"
  shows "scoreFamilyMatch cs cand family =
      (let embScore = (case f_embedding family of Some fe \<Rightarrow> cs (c_embedding cand) fe | None \<Rightarrow> Fin 0);
           thScore = themeSimilarity (c_themeVector cand) (f_themeVector family);
           tgScore = tagSimilarity (c_tags cand) (f_tags family)
       in \<lparr>score = js_div (js_add (js_add (js_mul embScore (lit (6 / 10))) (js_mul thScore (lit (25 / 100))))
                                  (js_mul tgScore (lit (15 / 100))))
                          (num_or (js_add (js_add (lit (6 / 10)) (lit (25 / 100))) (lit (15 / 100))) (Fin 1)),
           components = \<lparr>embeddingScore = embScore, themeScore = thScore, tagScore = tgScore,
                         hasEmbedding = True\<rparr>\<rparr>)"
  unfolding scoreFamilyMatch_def Let_def using assms
  by (simp only: simp_thms if_True if_False prod.case)

lemma scoreFamilyMatch_invalid:
  assumes "\<not> (isValidEmbedding (Some (c_embedding cand)) \<and> isValidEmbedding (f_embedding family))"
  shows "scoreFamilyMatch cs cand family =
      (let thScore = themeSimilarity (c_themeVector cand) (f_themeVector family);
           tgScore = tagSimilarity (c_tags cand) (f_tags family)
       in \<lparr>score = js_div (js_add (js_add (js_mul (Fin 0) (Fin 0)) (js_mul thScore (lit (65 / 100))))
                                  (js_mul tgScore (lit (35 / 100))))
                          (num_or (js_add (js_add (Fin 0) (lit (65 / 100))) (lit (35 / 100))) (Fin 1)),
           components = \<lparr>embeddingScore = Fin 0, themeScore = thScore, tagScore = tgScore,
                         hasEmbedding = False\<rparr>\<rparr>)"
proof -
  from assms have "(isValidEmbedding (Some (c_embedding cand)) \<and> isValidEmbedding (f_embedding family)) = False"
    by simp
  then show ?thesis
    unfolding scoreFamilyMatch_def Let_def
    by (simp only: simp_thms if_True if_False prod.case)
qed

lemma sentinel_invalid: "\<not> isValidEmbedding (Some SENTINEL)"
  by (simp add: isValidEmbedding_def SENTINEL_def)

text \<open>
  Claim C6. Let the theme similarity and the tag similarity of the candidate and the
  family, as \<open>themeSimilarity\<close> and \<open>tagSimilarity\<close> compute them, be finite and lie in
  \<open>[0,1]\<close>, and let the cosine similarity of the two embeddings, when both are usable, be
  finite and lie in \<open>[0,1]\<close>. Then the score of \<open>scoreFamilyMatch\<close> is finite and lies in
  \<open>[0,1]\<close>. When both embeddings are usable it is the weighted mean of the three
  sub-scores with the weights 0.60, 0.25 and 0.15; otherwise the embedding sub-score is 0
  and it is the weighted mean with the weights 0, 0.65 and 0.35. The mean is computed in
  double arithmetic and differs from the exact one by at most \<open>1e-15\<close>. The components
  returned are those sub-scores.
\<close>

theorem scoreFamilyMatch_range:
  assumes t: "themeSimilarity (c_themeVector cand) (f_themeVector family) = Fin t" "0 \<le> t" "t \<le> 1"
    and g: "tagSimilarity (c_tags cand) (f_tags family) = Fin g" "0 \<le> g" "g \<le> 1"
    and e: "\<forall>fe. f_embedding family = Some fe \<and> isValidEmbedding (Some (c_embedding cand))
                 \<and> isValidEmbedding (Some fe) \<longrightarrow> cs (c_embedding cand) fe = Fin e"
      "0 \<le> e" "e \<le> 1"
  shows "\<exists>s. score (scoreFamilyMatch cs cand family) = Fin s \<and> 0 \<le> s \<and> s \<le> 1
           \<and> (if isValidEmbedding (Some (c_embedding cand)) \<and> isValidEmbedding (f_embedding family)
              then score (scoreFamilyMatch cs cand family)
                     = weighted_mean (Fin e, lit (6 / 10)) (Fin t, lit (25 / 100)) (Fin g, lit (15 / 100))
                   \<and> \<bar>s - (e * (6 / 10) + t * (25 / 100) + g * (15 / 100))\<bar> \<le> 1 / 10 ^ 15
                   \<and> components (scoreFamilyMatch cs cand family)
                       = \<lparr>embeddingScore = Fin e, themeScore = Fin t, tagScore = Fin g, hasEmbedding = True\<rparr>
              else score (scoreFamilyMatch cs cand family)
                     = weighted_mean (Fin 0, Fin 0) (Fin t, lit (65 / 100)) (Fin g, lit (35 / 100))
                   \<and> \<bar>s - (t * (65 / 100) + g * (35 / 100))\<bar> \<le> 1 / 10 ^ 15
                   \<and> components (scoreFamilyMatch cs cand family)
                       = \<lparr>embeddingScore = Fin 0, themeScore = Fin t, tagScore = Fin g, hasEmbedding = False\<rparr>)"
proof (cases "isValidEmbedding (Some (c_embedding cand)) \<and> isValidEmbedding (f_embedding family)")
  case True
  then obtain fe where fe: "f_embedding family = Some fe"
    by (cases "f_embedding family") (auto simp: isValidEmbedding_def)
  with True e(1) have cs: "cs (c_embedding cand) fe = Fin e" by simp
  from mean_valid[OF e(2,3) t(2,3) g(2,3)] obtain s
    where tw: "js_add (js_add (lit (6 / 10)) (lit (25 / 100))) (lit (15 / 100)) = Fin 1"
      and s: "weighted_mean (Fin e, lit (6 / 10)) (Fin t, lit (25 / 100)) (Fin g, lit (15 / 100)) = Fin s"
        "0 \<le> s" "s \<le> 1" "\<bar>s - (e * (6 / 10) + t * (25 / 100) + g * (15 / 100))\<bar> \<le> 1 / 10 ^ 15"
    by blast
  have n: "num_or (Fin 1) (Fin 1) = Fin 1" by (simp add: num_or_def)
  have sc: "score (scoreFamilyMatch cs cand family)
      = weighted_mean (Fin e, lit (6 / 10)) (Fin t, lit (25 / 100)) (Fin g, lit (15 / 100))"
    unfolding scoreFamilyMatch_valid[OF True] Let_def weighted_mean_def fst_conv snd_conv tw n
      fe option.case cs t(1) g(1) by simp
  have co: "components (scoreFamilyMatch cs cand family)
      = \<lparr>embeddingScore = Fin e, themeScore = Fin t, tagScore = Fin g, hasEmbedding = True\<rparr>"
    unfolding scoreFamilyMatch_valid[OF True] Let_def fe option.case cs t(1) g(1) by simp
  from sc co s True show ?thesis by (simp only: if_True) auto
next
  case False
  from mean_invalid[OF t(2,3) g(2,3)] obtain s
    where tw: "js_add (js_add (Fin 0) (lit (65 / 100))) (lit (35 / 100)) = Fin 1"
      and s: "weighted_mean (Fin 0, Fin 0) (Fin t, lit (65 / 100)) (Fin g, lit (35 / 100)) = Fin s"
        "0 \<le> s" "s \<le> 1" "\<bar>s - (t * (65 / 100) + g * (35 / 100))\<bar> \<le> 1 / 10 ^ 15"
    by blast
  have n: "num_or (Fin 1) (Fin 1) = Fin 1" by (simp add: num_or_def)
  have sc: "score (scoreFamilyMatch cs cand family)
      = weighted_mean (Fin 0, Fin 0) (Fin t, lit (65 / 100)) (Fin g, lit (35 / 100))"
    unfolding scoreFamilyMatch_invalid[OF False] Let_def weighted_mean_def fst_conv snd_conv tw n
      t(1) g(1) by simp
  have co: "components (scoreFamilyMatch cs cand family)
      = \<lparr>embeddingScore = Fin 0, themeScore = Fin t, tagScore = Fin g, hasEmbedding = False\<rparr>"
    unfolding scoreFamilyMatch_invalid[OF False] Let_def t(1) g(1) by simp
  from False have "(isValidEmbedding (Some (c_embedding cand)) \<and> isValidEmbedding (f_embedding family)) = False"
    by simp
  with sc co s show ?thesis by (simp only: if_False) auto
qed

lemma sample_subscores:
  "themeSimilarity sample_vector (f_themeVector (sample_family m tags))
     = Fin (4278419646001971 / 4503599627370496)"
  "tagSimilarity [''sea'', ''night''] [''sea''] = Fin (1 / 2)"
  "isValidEmbedding (Some ones8)"
  "\<not> isValidEmbedding (Some [Fin 0, Fin 0, Fin 0])"
  by (simp_all add: score_eval round_eval)

theorem scoreFamilyMatch_range_witness:
  "themeSimilarity (c_themeVector (sample_candidate ones8)) (f_themeVector (sample_family ''Joy'' [''sea'']))
     = Fin (4278419646001971 / 4503599627370496)
   \<and> tagSimilarity (c_tags (sample_candidate ones8)) (f_tags (sample_family ''Joy'' [''sea''])) = Fin (1 / 2)
   \<and> f_embedding (sample_family ''Joy'' [''sea'']) = Some ones8
   \<and> half_cs (c_embedding (sample_candidate ones8)) ones8 = Fin (1 / 2)
   \<and> isValidEmbedding (Some (c_embedding (sample_candidate ones8)))
   \<and> isValidEmbedding (f_embedding (sample_family ''Joy'' [''sea'']))
   \<and> score (scoreFamilyMatch half_cs (sample_candidate ones8) (sample_family ''Joy'' [''sea'']))
       = Fin (5516909543528857 / 9007199254740992)
   \<and> \<bar>5516909543528857 / 9007199254740992
        - ((1 / 2) * (6 / 10) + (4278419646001971 / 4503599627370496) * (25 / 100) + (1 / 2) * (15 / 100))\<bar>
       \<le> (1 / 10 ^ 15 :: real)
   \<and> components (scoreFamilyMatch half_cs (sample_candidate ones8) (sample_family ''Joy'' [''sea'']))
       = \<lparr>embeddingScore = Fin (1 / 2), themeScore = Fin (4278419646001971 / 4503599627370496),
          tagScore = Fin (1 / 2), hasEmbedding = True\<rparr>"
proof -
  have t: "themeSimilarity (c_themeVector (sample_candidate ones8)) (f_themeVector (sample_family ''Joy'' [''sea'']))
      = Fin (4278419646001971 / 4503599627370496)"
    using sample_subscores(1) by (simp add: sample_candidate_def)
  have g: "tagSimilarity (c_tags (sample_candidate ones8)) (f_tags (sample_family ''Joy'' [''sea''])) = Fin (1 / 2)"
    using sample_subscores(2) by (simp add: sample_candidate_def sample_family_def)
  have e: "\<forall>fe. f_embedding (sample_family ''Joy'' [''sea'']) = Some fe
                 \<and> isValidEmbedding (Some (c_embedding (sample_candidate ones8)))
                 \<and> isValidEmbedding (Some fe)
             \<longrightarrow> half_cs (c_embedding (sample_candidate ones8)) fe = Fin (1 / 2)"
    by (simp add: half_cs_def)
  have v: "isValidEmbedding (Some (c_embedding (sample_candidate ones8)))"
    "isValidEmbedding (f_embedding (sample_family ''Joy'' [''sea'']))"
    "f_embedding (sample_family ''Joy'' [''sea'']) = Some ones8"
    using sample_subscores(3) by (simp_all add: sample_candidate_def sample_family_def)
  have sc: "score (scoreFamilyMatch half_cs (sample_candidate ones8) (sample_family ''Joy'' [''sea'']))
       = Fin (5516909543528857 / 9007199254740992)"
    by (simp add: score_eval round_eval)
  have "\<exists>s. score (scoreFamilyMatch half_cs (sample_candidate ones8) (sample_family ''Joy'' [''sea''])) = Fin s
          \<and> \<bar>s - ((1 / 2) * (6 / 10) + (4278419646001971 / 4503599627370496) * (25 / 100) + (1 / 2) * (15 / 100))\<bar>
               \<le> 1 / 10 ^ 15
          \<and> components (scoreFamilyMatch half_cs (sample_candidate ones8) (sample_family ''Joy'' [''sea'']))
               = \<lparr>embeddingScore = Fin (1 / 2), themeScore = Fin (4278419646001971 / 4503599627370496),
                  tagScore = Fin (1 / 2), hasEmbedding = True\<rparr>"
    using scoreFamilyMatch_range[where cand = "sample_candidate ones8"
        and family = "sample_family ''Joy'' [''sea'']" and cs = half_cs
        and t = "4278419646001971 / 4503599627370496" and g = "1 / 2" and e = "1 / 2", OF t _ _ g _ _ e]
      v(1,2)
    by auto
  then obtain s
    where s: "score (scoreFamilyMatch half_cs (sample_candidate ones8) (sample_family ''Joy'' [''sea''])) = Fin s"
      and b: "\<bar>s - ((1 / 2) * (6 / 10) + (4278419646001971 / 4503599627370496) * (25 / 100) + (1 / 2) * (15 / 100))\<bar>
               \<le> 1 / 10 ^ 15"
      and co: "components (scoreFamilyMatch half_cs (sample_candidate ones8) (sample_family ''Joy'' [''sea'']))
               = \<lparr>embeddingScore = Fin (1 / 2), themeScore = Fin (4278419646001971 / 4503599627370496),
                  tagScore = Fin (1 / 2), hasEmbedding = True\<rparr>"
    by blast
  from s sc have "s = 5516909543528857 / 9007199254740992" by simp
  with b have b': "\<bar>5516909543528857 / 9007199254740992
        - ((1 / 2) * (6 / 10) + (4278419646001971 / 4503599627370496) * (25 / 100) + (1 / 2) * (15 / 100))\<bar>
       \<le> (1 / 10 ^ 15 :: real)" by (simp only:)
  have h: "half_cs (c_embedding (sample_candidate ones8)) ones8 = Fin (1 / 2)" by (simp add: half_cs_def)
  from t g v h sc b' co show ?thesis by (simp only: simp_thms)
qed

text \<open>
  Claim C9. When the gate denies the call or the provider call throws, \<open>embedText\<close>
  returns \<open>[0,0,0]\<close> (it has no path that raises: every exception is caught); that vector
  is not usable; and for a candidate that carries it, whatever the family and whatever the
  cosine function, the scorer reports no embedding, an embedding score of 0, and a score
  made of the theme and tag terms with the weights 0.65 and 0.35.
\<close>

theorem embedText_sentinel:
  "(\<not> fst (checkRateLimit now g) \<or> (\<exists>m. api text = EmbedThrows m)
      \<longrightarrow> fst (embedText api now g text) = [Fin 0, Fin 0, Fin 0])
   \<and> \<not> isValidEmbedding (Some [Fin 0, Fin 0, Fin 0])
   \<and> (c_embedding cand = [Fin 0, Fin 0, Fin 0] \<longrightarrow>
        \<not> hasEmbedding (components (scoreFamilyMatch cs cand family))
        \<and> embeddingScore (components (scoreFamilyMatch cs cand family)) = Fin 0
        \<and> score (scoreFamilyMatch cs cand family)
            = js_div (js_add (js_add (Fin 0)
                                (js_mul (themeSimilarity (c_themeVector cand) (f_themeVector family)) (lit (65 / 100))))
                        (js_mul (tagSimilarity (c_tags cand) (f_tags family)) (lit (35 / 100))))
                     (Fin 1))"
proof (intro conjI impI)
  assume "\<not> fst (checkRateLimit now g) \<or> (\<exists>m. api text = EmbedThrows m)"
  then show "fst (embedText api now g text) = [Fin 0, Fin 0, Fin 0]"
    by (auto simp: embedText_def SENTINEL_def split: prod.splits)
next
  show "\<not> isValidEmbedding (Some [Fin 0, Fin 0, Fin 0])"
    using sentinel_invalid by (simp add: SENTINEL_def)
next
  assume c: "c_embedding cand = [Fin 0, Fin 0, Fin 0]"
  then have inv: "\<not> (isValidEmbedding (Some (c_embedding cand)) \<and> isValidEmbedding (f_embedding family))"
    using sentinel_invalid by (simp add: SENTINEL_def)
  have z: "js_mul (Fin 0) (Fin 0) = Fin 0" by (simp add: round_double_0)
  have w: "num_or (js_add (js_add (Fin 0) (lit (65 / 100))) (lit (35 / 100))) (Fin 1) = Fin 1"
    unfolding weights_invalid(1,2) using weights_invalid(5,6) by (simp add: num_or_def)
  show "\<not> hasEmbedding (components (scoreFamilyMatch cs cand family))"
    by (simp add: scoreFamilyMatch_invalid[OF inv] Let_def)
  show "embeddingScore (components (scoreFamilyMatch cs cand family)) = Fin 0"
    by (simp add: scoreFamilyMatch_invalid[OF inv] Let_def)
  show "score (scoreFamilyMatch cs cand family)
            = js_div (js_add (js_add (Fin 0)
                                (js_mul (themeSimilarity (c_themeVector cand) (f_themeVector family)) (lit (65 / 100))))
                        (js_mul (tagSimilarity (c_tags cand) (f_tags family)) (lit (35 / 100))))
                     (Fin 1)"
    unfolding scoreFamilyMatch_invalid[OF inv] Let_def z w by simp
qed

theorem embedText_sentinel_witness:
  "\<not> fst (checkRateLimit 5 \<lparr>requestCount = 14, rateLimitResetTime = 60000\<rparr>)
   \<and> fst (embedText (\<lambda>t. EmbedValues (Some ones8)) 5 \<lparr>requestCount = 14, rateLimitResetTime = 60000\<rparr> ''hello'')
       = [Fin 0, Fin 0, Fin 0]
   \<and> fst (embedText (\<lambda>t. EmbedThrows (Some ''fetch failed'')) 5 \<lparr>requestCount = 0, rateLimitResetTime = 60000\<rparr> ''hello'')
       = [Fin 0, Fin 0, Fin 0]
   \<and> c_embedding (sample_candidate [Fin 0, Fin 0, Fin 0]) = [Fin 0, Fin 0, Fin 0]
   \<and> \<not> hasEmbedding (components (scoreFamilyMatch half_cs (sample_candidate [Fin 0, Fin 0, Fin 0])
                                    (sample_family ''Joy'' [''sea''])))
   \<and> score (scoreFamilyMatch half_cs (sample_candidate [Fin 0, Fin 0, Fin 0]) (sample_family ''Joy'' [''sea'']))
       = Fin (1784551352345559 / 2251799813685248)"
  using embedText_sentinel[of 5 "\<lparr>requestCount = 14, rateLimitResetTime = 60000\<rparr>"
      "\<lambda>t. EmbedValues (Some ones8)" "''hello''" "sample_candidate [Fin 0, Fin 0, Fin 0]"
      half_cs "sample_family ''Joy'' [''sea'']"]
    embedText_sentinel[of 5 "\<lparr>requestCount = 0, rateLimitResetTime = 60000\<rparr>"
      "\<lambda>t. EmbedThrows (Some ''fetch failed'')" "''hello''" "sample_candidate [Fin 0, Fin 0, Fin 0]"
      half_cs "sample_family ''Joy'' [''sea'']"]
  by (simp add: score_eval round_eval checkRateLimit_def)

section \<open>Properties of the classification decision\<close>

lemma dyadic_round_double: "round_double x = Fin v \<Longrightarrow> dyadic v"
  unfolding dyadic_def by (rule round_double_grid)

lemma js_div_dyadic: "js_div x y = Fin v \<Longrightarrow> dyadic v"
proof (cases x; cases y)
  fix a b assume "js_div x y = Fin v" "x = Fin a" "y = Fin b"
  then show ?thesis by (auto simp: dyadic_round_double split: if_splits)
next
  fix a assume "js_div x y = Fin v" "x = Fin a" "y = PInf"
  then have "v = of_int 0 * 2 powi (- 1074)" by simp
  then show ?thesis unfolding dyadic_def by blast
next
  fix a assume "js_div x y = Fin v" "x = Fin a" "y = NInf"
  then have "v = of_int 0 * 2 powi (- 1074)" by simp
  then show ?thesis unfolding dyadic_def by blast
qed (auto split: if_splits)

lemma score_dyadic: "score (scoreFamilyMatch cs cand f) = Fin v \<Longrightarrow> dyadic v"
  by (auto simp: scoreFamilyMatch_def Let_def split: if_splits intro: js_div_dyadic)

text \<open>
  The difference of two doubles has the sign of their exact difference: it is a multiple of
  \<open>2^-1074\<close>, so it does not round to zero.
\<close>

lemma comparator_sign:
  assumes "dyadic sx" "dyadic sy"
  shows "js_gt (js_sub (Fin sy) (Fin sx)) (Fin 0) = (sx < sy)"
proof -
  from assms obtain nx ny :: int where n: "sx = of_int nx * 2 powi (- 1074)" "sy = of_int ny * 2 powi (- 1074)"
    unfolding dyadic_def by blast
  have p: "0 < (2::real) powi (- 1074)" by simp
  have d: "sy - sx = of_int (ny - nx) * 2 powi (- 1074)" by (simp add: n algebra_simps)
  have e: "js_sub (Fin sy) (Fin sx) = round_double (sy - sx)" by (simp add: js_sub_def)
  show ?thesis
  proof (cases "sx < sy")
    case True
    with d p have "0 < of_int (ny - nx) * (2::real) powi (- 1074)" by simp
    with p have "0 < ny - nx" by (simp add: zero_less_mult_iff)
    then have "(1::real) \<le> of_int (ny - nx)" by linarith
    with p have "1 * 2 powi (- 1074) \<le> of_int (ny - nx) * (2::real) powi (- 1074)"
      by (intro mult_right_mono) auto
    with d have "2 powi (- 1074) \<le> sy - sx" by simp
    from round_double_pos[OF this] True e show ?thesis by (simp add: js_gt_def)
  next
    case False
    then have "sy - sx \<le> 0" by simp
    from round_double_nonpos[OF this] False e show ?thesis by (simp add: js_gt_def)
  qed
qed

lemma insort_desc_insort_key:
  assumes "\<exists>v. s_score x = Fin v \<and> dyadic v" "\<forall>y\<in>set ys. \<exists>v. s_score y = Fin v \<and> dyadic v"
  shows "insort_desc x ys = insort_key sort_key_of x ys"
  using assms
proof (induction ys)
  case Nil
  then show ?case by simp
next
  case (Cons y ys)
  from Cons.prems obtain sx sy where s: "s_score x = Fin sx" "s_score y = Fin sy"
    and d: "dyadic sx" "dyadic sy" by auto
  have "js_gt (comparator x y) (Fin 0) = (sx < sy)"
    using s comparator_sign[OF d] by (simp add: comparator_def)
  then show ?case using Cons s by (auto simp: sort_key_of_def)
qed

lemma sort_desc_sort_key:
  assumes "\<forall>y\<in>set xs. \<exists>v. s_score y = Fin v \<and> dyadic v"
  shows "sort_desc xs = sort_key sort_key_of xs"
  using assms
proof (induction xs)
  case Nil
  then show ?case by (simp add: sort_desc_def)
next
  case (Cons x xs)
  then have ih: "sort_desc xs = sort_key sort_key_of xs" by simp
  have "\<forall>y\<in>set (sort_key sort_key_of xs). \<exists>v. s_score y = Fin v \<and> dyadic v" using Cons.prems by simp
  from insort_desc_insort_key[OF _ this, of x] Cons.prems ih
  show ?case by (simp add: sort_desc_def sort_key_def)
qed

lemma find_filter: "find P xs = (case filter P xs of [] \<Rightarrow> None | x # _ \<Rightarrow> Some x)"
  by (induction xs) auto

lemma sorted_head_first_max:
  assumes "sort_key f xs = b # rest"
  shows "b \<in> set xs" and "\<forall>y\<in>set xs. f b \<le> f y" and "find (\<lambda>y. f y = f b) xs = Some b"
proof -
  have "set (sort_key f xs) = set xs" by simp
  with assms show bs: "b \<in> set xs" by (metis list.set_intros(1))
  have "sorted (map f (sort_key f xs))" by simp
  with assms have "\<forall>y\<in>set (b # rest). f b \<le> f y" by auto
  with assms show "\<forall>y\<in>set xs. f b \<le> f y" by (metis set_sort)
  have "filter (\<lambda>y. f y = f b) (sort_key f xs) = filter (\<lambda>y. f y = f b) xs"
    by (rule sort_key_stable)
  with assms have "filter (\<lambda>y. f y = f b) xs = b # filter (\<lambda>y. f y = f b) rest" by simp
  then show "find (\<lambda>y. f y = f b) xs = Some b" by (simp add: find_filter)
qed

lemma sorted_second_max:
  assumes "sort_key f xs = b # rest"
  shows "mset rest = mset (remove1 b xs)" and "rest = s # rest' \<Longrightarrow> \<forall>y\<in>set (remove1 b xs). f s \<le> f y"
    and "rest = s # rest' \<Longrightarrow> s \<in> set (remove1 b xs)"
proof -
  have "mset (sort_key f xs) = mset xs" by simp
  with assms have "mset xs = add_mset b (mset rest)" by simp
  then show m: "mset rest = mset (remove1 b xs)" by simp
  then have st: "set rest = set (remove1 b xs)" by (rule mset_eq_setD)
  have "sorted (map f (sort_key f xs))" by simp
  with assms have "sorted (map f rest)" by simp
  then show "rest = s # rest' \<Longrightarrow> \<forall>y\<in>set (remove1 b xs). f s \<le> f y" using st by auto
  show "rest = s # rest' \<Longrightarrow> s \<in> set (remove1 b xs)" using st by auto
qed


lemma find_map_comp: "find P (map f xs) = map_option f (find (P \<circ> f) xs)"
  by (induction xs) auto

lemma remove1_map_inj:
  "inj_on f (set xs) \<Longrightarrow> b \<in> set xs \<Longrightarrow> remove1 (f b) (map f xs) = map f (remove1 b xs)"
proof (induction xs)
  case Nil
  then show ?case by simp
next
  case (Cons x xs)
  show ?case
  proof (cases "x = b")
    case True
    then show ?thesis by simp
  next
    case False
    with Cons.prems have b: "b \<in> set xs" by simp
    from Cons.prems False have "f x \<noteq> f b" by (auto simp: inj_on_def)
    moreover from Cons.prems have "inj_on f (set xs)" by (auto simp: inj_on_def)
    ultimately show ?thesis using Cons.IH b False by simp
  qed
qed

lemma map_of_ranked:
  "map_of (map to_ranked xs) m
     = map_option (\<lambda>e. (fin_val (s_score e), hasEmbedding (s_components e))) (find (\<lambda>e. s_mood e = m) xs)"
  by (induction xs) (auto simp: to_ranked_def)

lemma find_perm_distinct:
  assumes d: "distinct (map k xs)" and m: "mset ys = mset xs"
  shows "find (\<lambda>e. k e = a) ys = find (\<lambda>e. k e = a) xs"
proof -
  let ?P = "\<lambda>e. k e = a"
  have fm: "mset (filter ?P ys) = mset (filter ?P xs)" using m by (simp only: mset_filter)
  have "distinct (map k (filter ?P xs))" using d by (rule distinct_map_filter)
  moreover have "\<forall>e\<in>set (filter ?P xs). k e = a" by simp
  ultimately have "length (filter ?P xs) \<le> 1"
  proof (cases "filter ?P xs")
    case Nil then show ?thesis by simp
  next
    case (Cons x xs')
    assume dd: "distinct (map k (filter ?P xs))" and all: "\<forall>e\<in>set (filter ?P xs). k e = a"
    have "xs' = []"
    proof (cases xs')
      case Nil then show ?thesis .
    next
      case (Cons y zs)
      with \<open>filter ?P xs = x # xs'\<close> all have "k x = a" "k y = a"
        by (metis list.set_intros(1), metis list.set_intros(1) list.set_intros(2))
      with dd \<open>filter ?P xs = x # xs'\<close> Cons show ?thesis by simp
    qed
    with Cons show ?thesis by simp
  qed
  then consider "filter ?P xs = []" | x where "filter ?P xs = [x]"
    by (cases "filter ?P xs") (auto simp: length_Suc_conv)
  then have "filter ?P ys = filter ?P xs"
  proof cases
    case 1
    with fm have "mset (filter ?P ys) = {#}" by (simp del: mset_filter)
    with 1 show ?thesis by (simp only: mset_zero_iff)
  next
    case 2
    with fm have "mset (filter ?P ys) = {#x#}" by (simp del: mset_filter)
    then have "filter ?P ys = [x]" by (simp only: mset_single_iff)
    with 2 show ?thesis by simp
  qed
  then show ?thesis by (simp add: find_filter)
qed

lemma ranking_map: "ranking cs cand fs = map to_ranked (map (score_entry cs cand) fs)"
  by (simp add: ranking_def to_ranked_def score_entry_def)

lemma scoredFamilies_sorted:
  assumes "\<forall>f\<in>set fs. isFinite (score (scoreFamilyMatch cs cand f))"
  shows "scoredFamilies cs cand fs = sort_key sort_key_of (map (score_entry cs cand) fs)"
proof -
  have "scoredFamilies cs cand fs = sort_desc (map (score_entry cs cand) fs)"
    by (simp add: scoredFamilies_def score_entry_def[abs_def] Let_def)
  moreover have "\<forall>y\<in>set (map (score_entry cs cand) fs). \<exists>v. s_score y = Fin v \<and> dyadic v"
  proof
    fix y assume "y \<in> set (map (score_entry cs cand) fs)"
    then obtain f where f: "f \<in> set fs" "y = score_entry cs cand f" by auto
    with assms have "isFinite (score (scoreFamilyMatch cs cand f))" by blast
    then obtain v where v: "score (scoreFamilyMatch cs cand f) = Fin v"
      by (cases "score (scoreFamilyMatch cs cand f)") auto
    from score_dyadic[OF v] v f show "\<exists>v. s_score y = Fin v \<and> dyadic v"
      by (simp add: score_entry_def)
  qed
  ultimately show ?thesis by (simp add: sort_desc_sort_key)
qed

text \<open>What the head and the second element of the sorted list are, in terms of the ranking.\<close>

lemma top_scoring_sorted:
  assumes fin: "\<forall>y\<in>set xs. isFinite (s_score y)"
    and srt: "sort_key sort_key_of xs = b # rest"
  shows "top_scoring (map to_ranked xs) = Some (to_ranked b)"
proof -
  let ?g = "\<lambda>(m :: string, s :: real, h :: bool). s"
  from sorted_head_first_max[OF srt]
  have b: "b \<in> set xs" and le: "\<forall>y\<in>set xs. sort_key_of b \<le> sort_key_of y"
    and fnd: "find (\<lambda>y. sort_key_of y = sort_key_of b) xs = Some b" by auto
  have img: "set (map ?g (map to_ranked xs)) = (\<lambda>e. fin_val (s_score e)) ` set xs"
    by (auto simp: to_ranked_def image_iff)
  have "Max ((\<lambda>e. fin_val (s_score e)) ` set xs) = fin_val (s_score b)"
    using b le by (intro Max_eqI) (auto simp: sort_key_of_def)
  then have mx: "max_score (map to_ranked xs) = fin_val (s_score b)"
    unfolding max_score_def img by simp
  have "(\<lambda>(m, s, h). s = fin_val (s_score b)) \<circ> to_ranked = (\<lambda>y. sort_key_of y = sort_key_of b)"
    by (auto simp: to_ranked_def sort_key_of_def fun_eq_iff)
  then show ?thesis using fnd by (simp add: top_scoring_def mx find_map_comp)
qed

lemma runner_up_sorted:
  assumes dist: "distinct (map s_mood xs)"
    and srt: "sort_key sort_key_of xs = b # rest"
  shows "runner_up_score (map to_ranked xs) = (case rest of [] \<Rightarrow> 0 | s # _ \<Rightarrow> fin_val (s_score s))"
proof -
  let ?g = "\<lambda>(m :: string, s :: real, h :: bool). s"
  from sorted_head_first_max[OF srt] have b: "b \<in> set xs" by auto
  have top: "top_scoring (map to_ranked xs) = Some (to_ranked b)"
  proof -
    from sorted_head_first_max[OF srt]
    have le: "\<forall>y\<in>set xs. sort_key_of b \<le> sort_key_of y"
      and fnd: "find (\<lambda>y. sort_key_of y = sort_key_of b) xs = Some b" by auto
    have img: "set (map ?g (map to_ranked xs)) = (\<lambda>e. fin_val (s_score e)) ` set xs"
      by (auto simp: to_ranked_def image_iff)
    have "Max ((\<lambda>e. fin_val (s_score e)) ` set xs) = fin_val (s_score b)"
      using b le by (intro Max_eqI) (auto simp: sort_key_of_def)
    then have mx: "max_score (map to_ranked xs) = fin_val (s_score b)"
      unfolding max_score_def img by simp
    have "(\<lambda>(m, s, h). s = fin_val (s_score b)) \<circ> to_ranked = (\<lambda>y. sort_key_of y = sort_key_of b)"
      by (auto simp: to_ranked_def sort_key_of_def fun_eq_iff)
    then show ?thesis using fnd by (simp add: top_scoring_def mx find_map_comp)
  qed
  from dist have "inj_on s_mood (set xs)" by (simp add: distinct_map)
  then have inj: "inj_on to_ranked (set xs)"
    by (auto simp: inj_on_def to_ranked_def)
  have rm: "remove1 (to_ranked b) (map to_ranked xs) = map to_ranked (remove1 b xs)"
    using inj b by (rule remove1_map_inj)
  from sorted_second_max[OF srt]
  have m: "mset rest = mset (remove1 b xs)"
    and le2: "\<And>s rest'. rest = s # rest' \<Longrightarrow> \<forall>y\<in>set (remove1 b xs). sort_key_of s \<le> sort_key_of y"
    and in2: "\<And>s rest'. rest = s # rest' \<Longrightarrow> s \<in> set (remove1 b xs)" by auto
  show ?thesis
  proof (cases rest)
    case Nil
    with m have "mset (remove1 b xs) = {#}" by (simp del: mset_remove1)
    then have "remove1 b xs = []" by (simp only: mset_zero_iff)
    with top rm Nil show ?thesis by (simp add: runner_up_score_def)
  next
    case (Cons s rest')
    from in2[OF Cons] have ne: "remove1 b xs \<noteq> []" by auto
    have img: "set (map ?g (map to_ranked (remove1 b xs))) = (\<lambda>e. fin_val (s_score e)) ` set (remove1 b xs)"
      by (auto simp: to_ranked_def image_iff)
    have "Max ((\<lambda>e. fin_val (s_score e)) ` set (remove1 b xs)) = fin_val (s_score s)"
      using in2[OF Cons] le2[OF Cons] by (intro Max_eqI) (auto simp: sort_key_of_def)
    then have "max_score (map to_ranked (remove1 b xs)) = fin_val (s_score s)"
      unfolding max_score_def img by simp
    with top rm ne Cons show ?thesis by (simp add: runner_up_score_def)
  qed
qed

lemma own_score_sorted:
  assumes dist: "distinct (map s_mood xs)"
  shows "own_score (map to_ranked xs) m
     = map_option (\<lambda>e. fin_val (s_score e)) (find (\<lambda>e. s_mood e = m) (sort_key sort_key_of xs))"
proof -
  have "mset (sort_key sort_key_of xs) = mset xs" by simp
  from find_perm_distinct[OF dist this]
  have "find (\<lambda>e. s_mood e = m) (sort_key sort_key_of xs) = find (\<lambda>e. s_mood e = m) xs" .
  then show ?thesis by (simp add: own_score_def map_of_ranked option.map_comp comp_def)
qed


lemma find_Some_mem: "find P xs = Some e \<Longrightarrow> e \<in> set xs"
  by (induction xs) (auto split: if_splits)

lemma score_entry_hasEmbedding:
  "hasEmbedding (s_components (score_entry cs cand f)) \<Longrightarrow> isValidEmbedding (Some (c_embedding cand))"
  by (simp add: score_entry_def scoreFamilyMatch_def Let_def split: prod.splits if_splits)

text \<open>
  Claim C1. For an ingestion that is not offline, with at least one existing family, the
  final mood, the new-family flag and \<open>decidedBy\<close> that the decision block computes are
  those of the ordered policy (a) to (d), applied to the top-scoring profile, the runner-up
  score and the suggested mood's own score. The numbers of the policy are doubles and its
  two differences are rounded as JavaScript rounds them. The profiles are those of
  \<open>buildFamilyStats\<close> (distinct moods) and their scores are finite numbers.
\<close>

theorem decision_policy:
  assumes online: "\<not> offlineMode" and ne: "existingFamilies \<noteq> []"
    and fin: "\<forall>f\<in>set familyStats. isFinite (score (scoreFamilyMatch cs cand f))"
    and dist: "distinct (map f_mood familyStats)"
  shows "outcome_of (classifyDecision cs offlineMode existingFamilies familyStats cand normalizedMood proposed)
         = policy_spec existingFamilies (ranking cs cand familyStats) normalizedMood proposed"
proof -
  let ?xs = "map (score_entry cs cand) familyStats"
  let ?ys = "sort_key sort_key_of ?xs"
  let ?rs = "ranking cs cand familyStats"
  have sf: "scoredFamilies cs cand familyStats = ?ys" using fin by (rule scoredFamilies_sorted)
  have rs: "?rs = map to_ranked ?xs" by (rule ranking_map)
  have finx: "\<forall>y\<in>set ?xs. isFinite (s_score y)" using fin by (simp add: score_entry_def)
  have finy: "\<forall>y\<in>set ?ys. isFinite (s_score y)" using finx by simp
  have "s_mood \<circ> score_entry cs cand = f_mood" by (simp add: score_entry_def fun_eq_iff)
  then have "map s_mood ?xs = map f_mood familyStats" by (simp only: map_map)
  with dist have distx: "distinct (map s_mood ?xs)" by (simp only:)
  have own: "own_score ?rs normalizedMood
      = map_option (\<lambda>e. fin_val (s_score e)) (find (\<lambda>e. s_mood e = normalizedMood) ?ys)"
    unfolding rs using distx by (rule own_score_sorted)
  have cd: "classifyDecision cs offlineMode existingFamilies familyStats cand normalizedMood proposed
      = decisionBlock cs existingFamilies familyStats cand normalizedMood proposed"
    using online ne by (simp add: classifyDecision_def)
  have ai_fin: "\<And>e. find (\<lambda>e. s_mood e = normalizedMood) ?ys = Some e \<Longrightarrow> s_score e = Fin (fin_val (s_score e))"
  proof -
    fix e assume "find (\<lambda>e. s_mood e = normalizedMood) ?ys = Some e"
    then have "e \<in> set ?ys" by (rule find_Some_mem)
    with finy have "isFinite (s_score e)" by blast
    then show "s_score e = Fin (fin_val (s_score e))" by (cases "s_score e") auto
  qed
  show ?thesis
  proof (cases ?ys)
    case Nil
    then have "?xs = []" by (metis length_0_conv length_sort)
    then have "?rs = []" using rs by simp
    then have top: "top_scoring ?rs = None" by (simp add: top_scoring_def)
    show ?thesis
      unfolding cd decisionBlock_def sf Nil policy_spec_def top outcome_of_def Let_def
      by (simp split: option.splits)
  next
    case (Cons b rest)
    from top_scoring_sorted[OF finx Cons] have top: "top_scoring ?rs = Some (to_ranked b)"
      using rs by simp
    from runner_up_sorted[OF distx Cons]
    have ru: "runner_up_score ?rs = (case rest of [] \<Rightarrow> 0 | s # _ \<Rightarrow> fin_val (s_score s))"
      using rs by simp
    have "b \<in> set ?ys" using Cons by simp
    then have bfin: "isFinite (s_score b)" using finy by blast
    then obtain sb where sb: "s_score b = Fin sb" by (cases "s_score b") auto
    have "b \<in> set ?xs" using \<open>b \<in> set ?ys\<close> by simp
    then obtain f where "b = score_entry cs cand f" by auto
    then have emb: "hasEmbedding (s_components b) \<Longrightarrow> isValidEmbedding (Some (c_embedding cand))"
      using score_entry_hasEmbedding by blast
    define H where "H = hasEmbedding (s_components b)"
    have hasEmb: "(isValidEmbedding (Some (c_embedding cand)) \<and> hasEmbedding (s_components b)) = H"
      using emb H_def by blast
    have tr: "to_ranked b = (s_mood b, sb, H)" by (simp add: to_ranked_def sb H_def)
    have margin: "(case (case rest of [] \<Rightarrow> None | s # _ \<Rightarrow> Some s) of
                     Some s \<Rightarrow> num_or (s_score s) (Fin 0) | None \<Rightarrow> Fin 0)
         = Fin (runner_up_score ?rs)"
    proof (cases rest)
      case Nil
      then show ?thesis using ru by simp
    next
      case (Cons s rest')
      then have "s \<in> set ?ys" using \<open>?ys = b # rest\<close> by simp
      then have "isFinite (s_score s)" using finy by blast
      then obtain ss where "s_score s = Fin ss" by (cases "s_score s") auto
      then show ?thesis using ru Cons by (simp add: num_or_def)
    qed
    have second: "(case b # rest of [] \<Rightarrow> None | [x] \<Rightarrow> None | x # s # xa \<Rightarrow> Some s)
        = (case rest of [] \<Rightarrow> None | s # _ \<Rightarrow> Some s)"
      by (cases rest) simp_all
    have ai: "(case find (\<lambda>entry. s_mood entry = normalizedMood) ?ys of
                 Some entry \<Rightarrow> js_ge (s_score entry) X
               | None \<Rightarrow> False)
        = (case own_score ?rs normalizedMood of Some s \<Rightarrow> js_ge (Fin s) X | None \<Rightarrow> False)" for X
    proof (cases "find (\<lambda>entry. s_mood entry = normalizedMood) ?ys")
      case None
      then show ?thesis using own by simp
    next
      case (Some e)
      from ai_fin[OF Some] have "js_ge (s_score e) X = js_ge (Fin (fin_val (s_score e))) X" by simp
      then show ?thesis using own Some by simp
    qed
    show ?thesis
      unfolding cd decisionBlock_def sf policy_spec_def top tr outcome_of_def Let_def
      unfolding Cons list.case option.case prod.case second hasEmb sb margin ai[unfolded Cons]
      by (simp split: option.splits)
  qed
qed

lemmas edge_eval = edge_candidate_def edge_families_def edge_family_def axes5_def

lemma sample_ranking:
  "ranking half_cs (sample_candidate ones8) sample_families
     = [(''Grief'', 4841369599423283 / 9007199254740992, True),
        (''Joy'', 5516909543528857 / 9007199254740992, True)]"
  by (simp add: ranking_def sample_families_def score_eval round_eval)

lemma edge_ranking:
  "ranking half_cs edge_candidate edge_families
     = [(''Grief'', 2296835809958953 / 4503599627370496, False),
        (''Calm'', 5314247560297185 / 9007199254740992, False)]"
  by (simp add: ranking_def edge_eval score_eval round_eval)

lemma edge_ranking_single:
  "ranking half_cs edge_candidate edge_family = [(''Joy'', 2116691824864133 / 4503599627370496, False)]"
  by (simp add: ranking_def edge_eval score_eval round_eval)

lemmas policy_eval = policy_spec_def top_scoring_def max_score_def runner_up_score_def own_score_def
  js_sub_def js_ge_def round_eval

text \<open>
  The policy on the three samples. In the first the suggested family's own score,
  \<open>0.6124999999999999\<close>, passes \<open>0.62 - 0.05\<close>. In the second the best score is \<open>0.59\<close>
  and the runner-up \<open>0.51\<close>: their difference is the double \<open>0.07999999999999996\<close>, below
  \<open>0.08\<close>. In the third the own score is \<open>0.47\<close>, and \<open>0.52 - 0.05\<close> is the double
  \<open>0.47000000000000003\<close>.
\<close>

lemma policy_on_samples:
  "policy_spec [''Grief'', ''Joy'']
     [(''Grief'', 4841369599423283 / 9007199254740992, True),
      (''Joy'', 5516909543528857 / 9007199254740992, True)] ''Joy'' None
     = (''Joy'', False, ByAiExisting)"
  "policy_spec [''Grief'', ''Calm'']
     [(''Grief'', 2296835809958953 / 4503599627370496, False),
      (''Calm'', 5314247560297185 / 9007199254740992, False)] ''Dusk'' None
     = (''Dusk'', True, ByAiNew)"
  "policy_spec [''Joy''] [(''Joy'', 2116691824864133 / 4503599627370496, False)] ''Joy'' (Some ''Solace'')
     = (''Solace'', True, ByAiOverride)"
  by (simp_all add: policy_eval)

lemma sample_scores_finite:
  "\<forall>f\<in>set sample_families. isFinite (score (scoreFamilyMatch half_cs (sample_candidate ones8) f))"
  "\<forall>f\<in>set edge_families. isFinite (score (scoreFamilyMatch half_cs edge_candidate f))"
  "\<forall>f\<in>set edge_family. isFinite (score (scoreFamilyMatch half_cs edge_candidate f))"
  by (simp_all add: sample_families_def edge_eval score_eval round_eval)

theorem decision_policy_witness:
  "distinct (map f_mood sample_families) \<and> distinct (map f_mood edge_families)
   \<and> distinct (map f_mood edge_family)
   \<and> outcome_of (classifyDecision half_cs False [''Grief'', ''Joy''] sample_families
        (sample_candidate ones8) ''Joy'' None) = (''Joy'', False, ByAiExisting)
   \<and> outcome_of (classifyDecision half_cs False [''Grief'', ''Calm''] edge_families
        edge_candidate ''Dusk'' None) = (''Dusk'', True, ByAiNew)
   \<and> outcome_of (classifyDecision half_cs False [''Joy''] edge_family
        edge_candidate ''Joy'' (Some ''Solace'')) = (''Solace'', True, ByAiOverride)"
proof -
  have d: "distinct (map f_mood sample_families)" "distinct (map f_mood edge_families)"
    "distinct (map f_mood edge_family)"
    by (simp_all add: sample_families_def sample_family_def edge_eval)
  have ne: "[''Grief'', ''Joy''] \<noteq> []" "[''Grief'', ''Calm''] \<noteq> []" "[''Joy''] \<noteq> []" by simp_all
  from decision_policy[OF _ ne(1) sample_scores_finite(1) d(1), of False "''Joy''" None]
    decision_policy[OF _ ne(2) sample_scores_finite(2) d(2), of False "''Dusk''" None]
    decision_policy[OF _ ne(3) sample_scores_finite(3) d(3), of False "''Joy''" "Some ''Solace''"]
    sample_ranking edge_ranking edge_ranking_single policy_on_samples d
  show ?thesis by simp
qed

section \<open>Properties of the pairwise link scorer\<close>

lemma pair_link_same_mood:
  assumes "sameMood a b" "no_other_signal a b"
  shows "pair_link a b = Some (shared_mood_link a b)"
  using assms by (simp add: pair_link_def no_other_signal_def shared_mood_link_def str_or_def)

lemma pair_link_ends: "pair_link a b = Some l \<Longrightarrow> fromId l = m_id a \<and> toId l = m_id b"
  by (auto simp: pair_link_def Let_def split: if_splits prod.splits)

lemma inner_loop_from: "l \<in> set (inner_loop a bs) \<Longrightarrow> fromId l = m_id a \<and> toId l \<in> m_id ` set bs"
proof (induction bs)
  case Nil
  then show ?case by simp
next
  case (Cons b bs)
  then show ?case using pair_link_ends[of a b] by (auto split: option.splits)
qed

lemma outer_loop_ends:
  "l \<in> set (outer_loop ms) \<Longrightarrow> fromId l \<in> m_id ` set ms \<and> toId l \<in> m_id ` set ms"
proof (induction ms)
  case Nil
  then show ?case by simp
next
  case (Cons a ms)
  then show ?case using inner_loop_from[of l a ms] by auto
qed

lemma links_between_append:
  "links_between a b (ks @ ls) = links_between a b ks @ links_between a b ls"
  by (simp add: links_between_def)

lemma links_between_outer_none:
  assumes "m_id a \<notin> m_id ` set ms \<or> m_id b \<notin> m_id ` set ms"
  shows "links_between a b (outer_loop ms) = []"
proof -
  have "\<And>l. l \<in> set (outer_loop ms) \<Longrightarrow>
      \<not> ((fromId l = m_id a \<and> toId l = m_id b) \<or> (fromId l = m_id b \<and> toId l = m_id a))"
    using assms outer_loop_ends[of _ ms] by metis
  then show ?thesis by (simp add: links_between_def filter_empty_conv)
qed

lemma links_between_inner_none:
  assumes "m_id x \<noteq> m_id a \<or> m_id b \<notin> m_id ` set bs"
    and "m_id x \<noteq> m_id b \<or> m_id a \<notin> m_id ` set bs"
  shows "links_between a b (inner_loop x bs) = []"
proof -
  have "\<And>l. l \<in> set (inner_loop x bs) \<Longrightarrow>
      \<not> ((fromId l = m_id a \<and> toId l = m_id b) \<or> (fromId l = m_id b \<and> toId l = m_id a))"
    using assms inner_loop_from[of _ x bs] by metis
  then show ?thesis by (simp add: links_between_def filter_empty_conv)
qed

lemma inner_loop_append: "inner_loop a (bs @ cs) = inner_loop a bs @ inner_loop a cs"
  by (induction bs) (auto split: option.splits)

text \<open>Before the cap, the links between two memories are those of their one pair.\<close>

lemma links_between_outer:
  assumes d: "distinct (map m_id (xs @ a # ys @ b # zs))"
  shows "links_between a b (outer_loop (xs @ a # ys @ b # zs))
         = (case pair_link a b of None \<Rightarrow> [] | Some l \<Rightarrow> [l])"
  using d
proof (induction xs)
  case Nil
  from Nil.prems have ab: "m_id a \<noteq> m_id b"
    and ays: "m_id a \<notin> m_id ` set ys" and azs: "m_id a \<notin> m_id ` set zs"
    and bys: "m_id b \<notin> m_id ` set ys" and bzs: "m_id b \<notin> m_id ` set zs"
    by auto
  have 1: "links_between a b (inner_loop a ys) = []"
    using bys by (intro links_between_inner_none) auto
  have 2: "links_between a b (inner_loop a zs) = []"
    using bzs by (intro links_between_inner_none) auto
  have 3: "links_between a b (outer_loop (ys @ b # zs)) = []"
    using ays azs ab by (intro links_between_outer_none) auto
  have 4: "links_between a b (case pair_link a b of None \<Rightarrow> [] | Some l \<Rightarrow> [l])
         = (case pair_link a b of None \<Rightarrow> [] | Some l \<Rightarrow> [l])"
    using pair_link_ends[of a b] by (auto simp: links_between_def split: option.splits)
  have "inner_loop a (ys @ b # zs)
      = inner_loop a ys @ (case pair_link a b of None \<Rightarrow> [] | Some l \<Rightarrow> [l]) @ inner_loop a zs"
    by (simp add: inner_loop_append split: option.splits)
  then show ?case using 1 2 3 4 by (simp add: links_between_append)
next
  case (Cons x xs)
  from Cons.prems have xa: "m_id x \<noteq> m_id a" and xb: "m_id x \<noteq> m_id b" by auto
  have "links_between a b (inner_loop x (xs @ a # ys @ b # zs)) = []"
    using xa xb by (intro links_between_inner_none) auto
  moreover from Cons.prems have "distinct (map m_id (xs @ a # ys @ b # zs))" by simp
  ultimately show ?case using Cons.IH by (simp add: links_between_append)
qed

lemma links_between_sort:
  "links_between a b (sort_key f ls) = sort_key f (links_between a b ls)"
  by (simp add: links_between_def filter_sort)

lemma filter_take_single:
  "filter P ls = [l] \<Longrightarrow> filter P (take n ls) = [] \<or> filter P (take n ls) = [l]"
proof -
  assume f: "filter P ls = [l]"
  have "filter P ls = filter P (take n ls) @ filter P (drop n ls)"
    by (metis append_take_drop_id filter_append)
  with f show ?thesis by (cases "filter P (take n ls)") (auto simp: Cons_eq_append_conv)
qed

lemma shared_mood_parts:
  assumes "memories = xs @ a # ys @ b # zs"
    and "distinct (map m_id memories)"
    and "sameMood a b" and "no_other_signal a b"
  shows "links_between a b (sort_key (\<lambda>l. - l_score l) (outer_loop memories)) = [shared_mood_link a b]"
    and "links_between a b (buildIdeaLinks memories) = []
         \<or> links_between a b (buildIdeaLinks memories) = [shared_mood_link a b]"
    and "length (outer_loop memories) \<le> 140 \<Longrightarrow>
         links_between a b (buildIdeaLinks memories) = [shared_mood_link a b]"
proof -
  from links_between_outer[of xs a ys b zs] assms pair_link_same_mood[of a b]
  have pre: "links_between a b (outer_loop memories) = [shared_mood_link a b]" by simp
  then show s: "links_between a b (sort_key (\<lambda>l. - l_score l) (outer_loop memories)) = [shared_mood_link a b]"
    by (simp add: links_between_sort)
  from filter_take_single[OF s[unfolded links_between_def], of 140]
  show "links_between a b (buildIdeaLinks memories) = []
         \<or> links_between a b (buildIdeaLinks memories) = [shared_mood_link a b]"
    by (simp add: buildIdeaLinks_def links_between_def)
  show "length (outer_loop memories) \<le> 140 \<Longrightarrow>
         links_between a b (buildIdeaLinks memories) = [shared_mood_link a b]"
    using s by (simp add: buildIdeaLinks_def)
qed

text \<open>
  Claim C2, amended. Let two memories of the window have the same non-empty mood (compared
  case-insensitively) and no other signal, the ids in the window being distinct. Before the
  cap there is exactly one link between them, of type \<open>family\<close>, with score 2 and reason
  \<open>shared mood\<close>: the same mood itself adds 2, so the branch that pushes a link of score 1
  is never taken. The returned list holds that link and no other between them whenever the
  window yields at most 140 links; in general it holds that link or, when the cap cuts it,
  none.
\<close>

theorem same_mood_link:
  assumes "memories = xs @ a # ys @ b # zs"
    and "distinct (map m_id memories)"
    and "sameMood a b" and "no_other_signal a b"
  shows "links_between a b (sort_key (\<lambda>l. - l_score l) (outer_loop memories)) = [shared_mood_link a b]
       \<and> (links_between a b (buildIdeaLinks memories) = []
           \<or> links_between a b (buildIdeaLinks memories) = [shared_mood_link a b])
       \<and> (length (outer_loop memories) \<le> 140 \<longrightarrow>
           links_between a b (buildIdeaLinks memories) = [shared_mood_link a b])"
  using shared_mood_parts[OF assms] by blast

theorem same_mood_link_witness:
  "[calm_a, calm_b] = [] @ calm_a # [] @ calm_b # []
   \<and> distinct (map m_id [calm_a, calm_b])
   \<and> sameMood calm_a calm_b \<and> no_other_signal calm_a calm_b
   \<and> length (outer_loop [calm_a, calm_b]) \<le> 140
   \<and> links_between calm_a calm_b (buildIdeaLinks [calm_a, calm_b])
       = [\<lparr>l_id = ''idea:a1-b2'', fromId = ''a1'', toId = ''b2'', l_type = ''family'', l_score = 2,
           reason = ''shared mood''\<rparr>]"
proof -
  have d: "distinct (map m_id [calm_a, calm_b])" by (simp add: calm_a_def calm_b_def)
  have s: "sameMood calm_a calm_b" by code_simp
  have n: "no_other_signal calm_a calm_b" by code_simp
  have l: "length (outer_loop [calm_a, calm_b]) \<le> 140" by (simp split: option.splits)
  have e: "[calm_a, calm_b] = [] @ calm_a # [] @ calm_b # []" by simp
  from same_mood_link[OF e d s n] d s n l
  show ?thesis by (simp add: shared_mood_link_def calm_a_def calm_b_def)
qed

text \<open>
  Claim C2 as stated fails: two memories whose moods are \<open>Calm\<close> and \<open>calm\<close>, with no
  contradiction, no shared emotional-core label, no shared tag and no absence tag, get one
  link of type \<open>family\<close>, and its score is 2, not 1.
\<close>

theorem shared_mood_score_counterexample:
  "sameMood calm_a calm_b \<and> no_other_signal calm_a calm_b
   \<and> buildIdeaLinks [calm_a, calm_b]
       = [\<lparr>l_id = ''idea:a1-b2'', fromId = ''a1'', toId = ''b2'', l_type = ''family'', l_score = 2,
           reason = ''shared mood''\<rparr>]
   \<and> \<not> one_family_link_score_1 calm_a calm_b (buildIdeaLinks [calm_a, calm_b])"
  by code_simp

section \<open>Properties of the cluster label resolver\<close>

subsection \<open>Roots and paths\<close>

lemma reaches_root: "reaches p k r n \<Longrightarrow> pget p r = r"
  by (induction rule: reaches.induct) auto

lemma reaches_det: "reaches p k r n \<Longrightarrow> reaches p k r' n' \<Longrightarrow> r = r' \<and> n = n'"
proof (induction arbitrary: r' n' rule: reaches.induct)
  case (at_root r)
  then show ?case by (auto elim: reaches.cases)
next
  case (step k r n)
  from step.prems step.hyps(1) obtain m where "n' = Suc m" "reaches p (pget p k) r' m"
    by (auto elim: reaches.cases)
  with step.IH show ?case by auto
qed

lemma rep_eq: "reaches p k r n \<Longrightarrow> rep p k = r"
  unfolding rep_def using reaches_det by blast

lemma find_root_reaches: "reaches p k r n \<Longrightarrow> find_root p k = Some r"
proof (induction rule: reaches.induct)
  case (at_root r)
  then show ?case by (subst find_root.simps) simp
next
  case (step k r n)
  from step.hyps(1) have "k \<noteq> pget p k" by auto
  then show ?case using step.IH by (subst find_root.simps) simp
qed

lemma reaches_parent: "reaches p k r n \<Longrightarrow> \<exists>m. reaches p (pget p k) r m"
  by (induction rule: reaches.induct) (auto intro: reaches.at_root)

lemma uf_inv_reach: "uf_inv S p \<Longrightarrow> k \<in> S \<Longrightarrow> \<exists>n. reaches p k (rep p k) n"
  unfolding uf_inv_def using rep_eq by blast

lemma reaches_in: "uf_inv S p \<Longrightarrow> k \<in> S \<Longrightarrow> reaches p k r n \<Longrightarrow> r \<in> S"
proof (induction n arbitrary: k)
  case 0
  then show ?case by (auto elim: reaches.cases)
next
  case (Suc n)
  from Suc.prems(3) have "reaches p (pget p k) r n" by (auto elim: reaches.cases)
  moreover from Suc.prems have "pget p k \<in> S" by (simp add: uf_inv_def)
  ultimately show ?case using Suc.IH Suc.prems(1) by blast
qed

lemma rep_in: "uf_inv S p \<Longrightarrow> k \<in> S \<Longrightarrow> rep p k \<in> S"
  using uf_inv_reach reaches_in by blast

lemma rep_root: "uf_inv S p \<Longrightarrow> k \<in> S \<Longrightarrow> pget p (rep p k) = rep p k"
  using uf_inv_reach reaches_root by blast

lemma pget_upd: "pget (p(c \<mapsto> v)) k = (if k = c then v else pget p k)"
  by (simp add: pget_def)

text \<open>Pointing a key at its own root keeps every root, and no path gets longer.\<close>

lemma compress_step_reaches:
  assumes c: "reaches p c r n0"
  shows "reaches p x r' m \<Longrightarrow> \<exists>m'\<le>m. reaches (p(c \<mapsto> r)) x r' m'"
proof (induction rule: reaches.induct)
  case (at_root q)
  show ?case
  proof (cases "q = c")
    case True
    with at_root c have "r = q" using reaches_det reaches.at_root by blast
    with True at_root have "pget (p(c \<mapsto> r)) q = q" by (simp add: pget_upd)
    then have "reaches (p(c \<mapsto> r)) q q 0" by (rule reaches.at_root)
    then show ?thesis by blast
  next
    case False
    with at_root have "pget (p(c \<mapsto> r)) q = q" by (simp add: pget_upd)
    then have "reaches (p(c \<mapsto> r)) q q 0" by (rule reaches.at_root)
    then show ?thesis by blast
  qed
next
  case (step k q n)
  show ?case
  proof (cases "k = c")
    case True
    have "reaches p k q (Suc n)" using step.hyps by (rule reaches.step)
    with c True have rq: "r = q" using reaches_det by blast
    have qroot: "pget p q = q" using step.hyps(2) by (rule reaches_root)
    from step.hyps(1) qroot have "q \<noteq> k" by auto
    with qroot True have "pget (p(c \<mapsto> r)) q = q" by (simp add: pget_upd)
    then have r0: "reaches (p(c \<mapsto> r)) q q 0" by (rule reaches.at_root)
    have "pget (p(c \<mapsto> r)) k = q" using True rq by (simp add: pget_upd)
    with r0 \<open>q \<noteq> k\<close> have r1: "reaches (p(c \<mapsto> r)) k q (Suc 0)"
      by (intro reaches.step) auto
    have "Suc 0 \<le> Suc n" by simp
    with r1 show ?thesis by blast
  next
    case False
    then have e: "pget (p(c \<mapsto> r)) k = pget p k" by (simp add: pget_upd)
    from step.IH obtain m' where m': "m' \<le> n" "reaches (p(c \<mapsto> r)) (pget p k) q m'" by blast
    with e step.hyps(1) have r1: "reaches (p(c \<mapsto> r)) k q (Suc m')"
      by (intro reaches.step) auto
    from m' have "Suc m' \<le> Suc n" by simp
    with r1 show ?thesis by blast
  qed
qed

lemma compress_step_inv:
  assumes inv: "uf_inv S p" and cS: "c \<in> S" and c: "reaches p c r n0"
  shows "uf_inv S (p(c \<mapsto> r))" and "\<forall>x\<in>S. rep (p(c \<mapsto> r)) x = rep p x"
proof -
  have rS: "r \<in> S" using reaches_in[OF inv cS c] .
  have pres: "\<And>x. x \<in> S \<Longrightarrow> \<exists>m. reaches (p(c \<mapsto> r)) x (rep p x) m"
    using uf_inv_reach[OF inv] compress_step_reaches[OF c] by blast
  show "uf_inv S (p(c \<mapsto> r))"
    unfolding uf_inv_def
  proof (intro conjI ballI)
    show "dom (p(c \<mapsto> r)) = S" using inv cS by (auto simp: uf_inv_def)
    show "\<And>k. k \<in> S \<Longrightarrow> id_truthy k" using inv by (simp add: uf_inv_def)
    show "\<And>k. k \<in> S \<Longrightarrow> pget (p(c \<mapsto> r)) k \<in> S"
      using inv rS by (simp add: uf_inv_def pget_upd)
    show "\<And>k. k \<in> S \<Longrightarrow> \<exists>r' n. reaches (p(c \<mapsto> r)) k r' n" using pres by blast
  qed
  show "\<forall>x\<in>S. rep (p(c \<mapsto> r)) x = rep p x" using pres rep_eq by blast
qed

lemma compress_total:
  "uf_inv S p \<Longrightarrow> c \<in> S \<Longrightarrow> reaches p c r n \<Longrightarrow>
   \<exists>p'. compress p r c = Some p' \<and> uf_inv S p' \<and> (\<forall>x\<in>S. rep p' x = rep p x)"
proof (induction n arbitrary: p c rule: less_induct)
  case (less n)
  show ?case
  proof (cases "c = r")
    case True
    then have "compress p r c = Some p" by (subst compress.simps) simp
    with less.prems show ?thesis by simp
  next
    case False
    let ?p1 = "p(c \<mapsto> r)"
    from less.prems(3) False obtain n' where n: "n = Suc n'" "reaches p (pget p c) r n'"
      by (auto elim: reaches.cases)
    from compress_step_reaches[OF less.prems(3) n(2)]
    obtain m' where m': "m' \<le> n'" "reaches ?p1 (pget p c) r m'" by blast
    have inv1: "uf_inv S ?p1" and rep1: "\<forall>x\<in>S. rep ?p1 x = rep p x"
      using compress_step_inv[OF less.prems] by auto
    have nS: "pget p c \<in> S" using less.prems by (simp add: uf_inv_def)
    from m' n have "m' < n" by simp
    from less.IH[OF this inv1 nS m'(2)]
    obtain p' where p': "compress ?p1 r (pget p c) = Some p'" "uf_inv S p'"
      "\<forall>x\<in>S. rep p' x = rep ?p1 x" by blast
    have "compress p r c = compress ?p1 r (pget p c)"
      using False by (subst compress.simps) simp
    with p' rep1 show ?thesis by simp
  qed
qed

text \<open>\<open>find\<close> on a key: the root, a compressed map, the same roots for all keys.\<close>

lemma find_uf_key:
  assumes inv: "uf_inv S p" and k: "k \<in> S"
  shows "\<exists>p'. find_uf p k = Some (rep p k, p') \<and> uf_inv S p' \<and> (\<forall>x\<in>S. rep p' x = rep p x)"
proof -
  from uf_inv_reach[OF inv k] obtain n where r: "reaches p k (rep p k) n" by blast
  from reaches_parent[OF r] obtain m where "reaches p (pget p k) (rep p k) m" by blast
  then have fr: "find_root p (pget p k) = Some (rep p k)" by (rule find_root_reaches)
  have "pget p k \<in> S" using inv k by (simp add: uf_inv_def)
  then have tr: "id_truthy (pget p k)" using inv by (simp add: uf_inv_def)
  from compress_total[OF inv k r] obtain p' where
    p': "compress p (rep p k) k = Some p'" "uf_inv S p'" "\<forall>x\<in>S. rep p' x = rep p x" by blast
  have "find_uf p k = Some (rep p k, p')"
    using tr fr p'(1) by (simp add: find_uf_def Let_def)
  with p' show ?thesis by blast
qed

lemma find_uf_absent: "p k = None \<Longrightarrow> find_uf p k = Some (k, p)"
  by (simp add: find_uf_def pget_def id_truthy_def)

text \<open>Hanging one root under another moves its class and no other.\<close>

lemma link_roots_reaches:
  assumes ra: "pget p ra = ra" and rb: "pget p rb = rb" and ne: "ra \<noteq> rb"
  shows "reaches p x r m \<Longrightarrow> \<exists>m'. reaches (p(rb \<mapsto> ra)) x (if r = rb then ra else r) m'"
proof (induction rule: reaches.induct)
  case (at_root q)
  have a0: "reaches (p(rb \<mapsto> ra)) ra ra 0"
    using ra ne by (intro reaches.at_root) (simp add: pget_upd)
  show ?case
  proof (cases "q = rb")
    case True
    have "reaches (p(rb \<mapsto> ra)) rb ra (Suc 0)"
      using a0 ne by (intro reaches.step) (auto simp: pget_upd)
    with True show ?thesis by (simp only: if_True simp_thms) blast
  next
    case False
    with at_root have "reaches (p(rb \<mapsto> ra)) q q 0"
      by (intro reaches.at_root) (simp add: pget_upd)
    with False show ?thesis by (simp only: if_False simp_thms) blast
  qed
next
  case (step k q n)
  from step.hyps(1) rb have "k \<noteq> rb" by auto
  then have "pget (p(rb \<mapsto> ra)) k = pget p k" by (simp add: pget_upd)
  moreover from step.IH obtain m' where "reaches (p(rb \<mapsto> ra)) (pget p k) (if q = rb then ra else q) m'"
    by blast
  ultimately have "reaches (p(rb \<mapsto> ra)) k (if q = rb then ra else q) (Suc m')"
    using step.hyps(1) by (intro reaches.step) simp_all
  then show ?case by blast
qed

lemma union_uf_keys:
  assumes inv: "uf_inv S p" and a: "a \<in> S" and b: "b \<in> S"
  shows "\<exists>p'. union_uf p a b = Some p' \<and> uf_inv S p'
           \<and> (\<forall>x\<in>S. rep p' x = (if rep p x = rep p b then rep p a else rep p x))"
proof -
  from find_uf_key[OF inv a] obtain p1 where
    p1: "find_uf p a = Some (rep p a, p1)" "uf_inv S p1" "\<forall>x\<in>S. rep p1 x = rep p x" by blast
  from find_uf_key[OF p1(2) b] obtain p2 where
    p2: "find_uf p1 b = Some (rep p1 b, p2)" "uf_inv S p2" "\<forall>x\<in>S. rep p2 x = rep p1 x" by blast
  have rb: "rep p1 b = rep p b" using p1(3) b by simp
  have r2: "\<forall>x\<in>S. rep p2 x = rep p x" using p1(3) p2(3) by simp
  have dom: "p a \<noteq> None" "p b \<noteq> None" using inv a b by (auto simp: uf_inv_def)
  let ?ra = "rep p a" and ?rb = "rep p b"
  have un: "union_uf p a b = Some (if ?ra \<noteq> ?rb then p2(?rb \<mapsto> ?ra) else p2)"
    using dom p1(1) p2(1) rb by (simp add: union_uf_def del: not_None_eq)
  show ?thesis
  proof (cases "?ra = ?rb")
    case True
    with un p2(2) r2 show ?thesis by auto
  next
    case False
    let ?p' = "p2(?rb \<mapsto> ?ra)"
    have raS: "?ra \<in> S" and rbS: "?rb \<in> S" using rep_in[OF inv] a b by auto
    have ra_root: "pget p2 ?ra = ?ra" using rep_root[OF p2(2) a] r2 a by simp
    have rb_root: "pget p2 ?rb = ?rb" using rep_root[OF p2(2) b] r2 b by simp
    have pres: "\<And>x. x \<in> S \<Longrightarrow> \<exists>m. reaches ?p' x (if rep p x = ?rb then ?ra else rep p x) m"
    proof -
      fix x assume x: "x \<in> S"
      from uf_inv_reach[OF p2(2) x] r2 x obtain n where "reaches p2 x (rep p x) n" by auto
      from link_roots_reaches[OF ra_root rb_root False this] show "\<exists>m. reaches ?p' x (if rep p x = ?rb then ?ra else rep p x) m" .
    qed
    have "uf_inv S ?p'"
      unfolding uf_inv_def
    proof (intro conjI ballI)
      show "dom ?p' = S" using p2(2) rbS by (auto simp: uf_inv_def)
      show "\<And>k. k \<in> S \<Longrightarrow> id_truthy k" using inv by (simp add: uf_inv_def)
      show "\<And>k. k \<in> S \<Longrightarrow> pget ?p' k \<in> S" using p2(2) raS by (simp add: uf_inv_def pget_upd)
      show "\<And>k. k \<in> S \<Longrightarrow> \<exists>r' n. reaches ?p' k r' n" using pres by blast
    qed
    moreover have "\<forall>x\<in>S. rep ?p' x = (if rep p x = ?rb then ?ra else rep p x)"
      using pres rep_eq by blast
    ultimately show ?thesis using un False by auto
  qed
qed

lemma union_uf_dangling: "p a = None \<or> p b = None \<Longrightarrow> union_uf p a b = Some p"
  by (simp add: union_uf_def)

subsection \<open>Unions and connectivity\<close>

lemma init_parent_eq:
  "init_parent ms = (\<lambda>k. if k \<in> memory_ids ms then Some k else None)"
proof -
  have "\<And>p. foldl (\<lambda>parent mem. if id_truthy (cm_id mem) then parent(cm_id mem \<mapsto> cm_id mem) else parent) p ms
      = (\<lambda>k. if k \<in> memory_ids ms then Some k else p k)"
  proof (induction ms)
    case Nil
    then show ?case by (simp add: memory_ids_def)
  next
    case (Cons m ms)
    show ?case by (simp add: Cons.IH) (auto simp: memory_ids_def fun_eq_iff)
  qed
  then show ?thesis by (simp add: init_parent_def)
qed

lemma memory_ids_truthy: "k \<in> memory_ids ms \<Longrightarrow> id_truthy k"
  by (auto simp: memory_ids_def)

lemma init_parent_inv: "uf_inv (memory_ids ms) (init_parent ms)"
  and init_parent_rep: "k \<in> memory_ids ms \<Longrightarrow> rep (init_parent ms) k = k"
proof -
  have r: "\<And>k. k \<in> memory_ids ms \<Longrightarrow> reaches (init_parent ms) k k 0"
    by (intro reaches.at_root) (simp add: init_parent_eq pget_def)
  show "uf_inv (memory_ids ms) (init_parent ms)"
    unfolding uf_inv_def
  proof (intro conjI ballI)
    show "dom (init_parent ms) = memory_ids ms" by (auto simp: init_parent_eq split: if_splits)
    show "\<And>k. k \<in> memory_ids ms \<Longrightarrow> id_truthy k" by (rule memory_ids_truthy)
    show "\<And>k. k \<in> memory_ids ms \<Longrightarrow> pget (init_parent ms) k \<in> memory_ids ms"
      by (simp add: init_parent_eq pget_def)
    show "\<And>k. k \<in> memory_ids ms \<Longrightarrow> \<exists>r n. reaches (init_parent ms) k r n" using r by blast
  qed
  show "k \<in> memory_ids ms \<Longrightarrow> rep (init_parent ms) k = k" using r rep_eq by blast
qed

lemma conn_mono_links: "conn R S ls x y \<Longrightarrow> set ls \<subseteq> set ls' \<Longrightarrow> conn R S ls' x y"
  by (induction rule: conn.induct) (auto intro: conn.intros)

lemma same_root_equiv:
  "same_root S p x y \<Longrightarrow> same_root S p y x"
  "same_root S p x y \<Longrightarrow> same_root S p y z \<Longrightarrow> same_root S p x z"
  by (auto simp: same_root_def)

lemma conn_no_links: "conn (same_root S p) S [] x y = same_root S p x y"
proof
  show "conn (same_root S p) S [] x y \<Longrightarrow> same_root S p x y"
    by (induction rule: conn.induct) (auto intro: same_root_equiv)
qed (rule conn.base)

lemma conn_skip_invalid:
  assumes "\<not> valid_link S l"
  shows "conn R S (l # ls) x y = conn R S ls x y"
proof
  show "conn R S (l # ls) x y \<Longrightarrow> conn R S ls x y"
  proof (induction rule: conn.induct)
    case (by_link l')
    with assms have "l' \<in> set ls" by auto
    with by_link show ?case by (auto intro: conn.by_link)
  qed (auto intro: conn.intros)
  show "conn R S ls x y \<Longrightarrow> conn R S (l # ls) x y"
    by (rule conn_mono_links) auto
qed

text \<open>One union is one more link in the closure.\<close>

lemma conn_after_union:
  assumes v: "valid_link S l"
    and r1: "\<forall>x\<in>S. rep p1 x = (if rep p x = rep p (Some (toId l)) then rep p (Some (fromId l)) else rep p x)"
  shows "conn (same_root S p1) S ls x y = conn (same_root S p) S (l # ls) x y"
proof
  let ?a = "Some (fromId l)" and ?b = "Some (toId l)"
  from v have aS: "?a \<in> S" and bS: "?b \<in> S" by (auto simp: valid_link_def)
  have ab: "conn (same_root S p) S (l # ls) ?a ?b"
    using v by (intro conn.by_link) auto
  have base1: "\<And>x y. same_root S p1 x y \<Longrightarrow> conn (same_root S p) S (l # ls) x y"
  proof -
    fix x y assume s: "same_root S p1 x y"
    then have xS: "x \<in> S" and yS: "y \<in> S" and e: "rep p1 x = rep p1 y" by (auto simp: same_root_def)
    have xb: "rep p x = rep p ?b \<Longrightarrow> conn (same_root S p) S (l # ls) x ?a"
      using xS bS ab by (meson conn.base conn.sym conn.trans same_root_def)
    have yb: "rep p y = rep p ?b \<Longrightarrow> conn (same_root S p) S (l # ls) ?a y"
      using yS bS ab by (meson conn.base conn.sym conn.trans same_root_def)
    have xa: "rep p x = rep p ?a \<Longrightarrow> conn (same_root S p) S (l # ls) x ?a"
      using xS aS by (intro conn.base) (simp add: same_root_def)
    have ya: "rep p ?a = rep p y \<Longrightarrow> conn (same_root S p) S (l # ls) ?a y"
      using yS aS by (intro conn.base) (simp add: same_root_def)
    have xy: "rep p x = rep p y \<Longrightarrow> conn (same_root S p) S (l # ls) x y"
      using xS yS by (intro conn.base) (simp add: same_root_def)
    from e r1 xS yS
    have "(if rep p x = rep p ?b then rep p ?a else rep p x)
        = (if rep p y = rep p ?b then rep p ?a else rep p y)" by simp
    then show "conn (same_root S p) S (l # ls) x y"
      using xb yb xa ya xy by (auto split: if_splits intro: conn.trans)
  qed
  show "conn (same_root S p1) S ls x y \<Longrightarrow> conn (same_root S p) S (l # ls) x y"
  proof (induction rule: conn.induct)
    case (base x y)
    then show ?case by (rule base1)
  next
    case (by_link l')
    then show ?case by (auto intro: conn.by_link)
  qed (auto intro: conn.intros)
  have base2: "\<And>x y. same_root S p x y \<Longrightarrow> same_root S p1 x y"
    using r1 by (auto simp: same_root_def)
  have ab1: "same_root S p1 ?a ?b" using r1 aS bS by (simp add: same_root_def)
  show "conn (same_root S p) S (l # ls) x y \<Longrightarrow> conn (same_root S p1) S ls x y"
  proof (induction rule: conn.induct)
    case (base x y)
    then show ?case using base2 by (auto intro: conn.base)
  next
    case (by_link l')
    show ?case
    proof (cases "l' = l")
      case True
      with ab1 show ?thesis by (auto intro: conn.base)
    next
      case False
      with by_link show ?thesis by (auto intro: conn.by_link)
    qed
  qed (auto intro: conn.intros)
qed

lemma link_loop_conn:
  "uf_inv S p \<Longrightarrow>
   \<exists>p'. link_loop p ls = Some p' \<and> uf_inv S p'
         \<and> (\<forall>x y. same_root S p' x y = conn (same_root S p) S ls x y)"
proof (induction ls arbitrary: p)
  case Nil
  then show ?case by (simp add: conn_no_links)
next
  case (Cons l ls)
  show ?case
  proof (cases "valid_link S l")
    case True
    then have aS: "Some (fromId l) \<in> S" and bS: "Some (toId l) \<in> S"
      and ne: "\<not> (fromId l = [] \<or> toId l = [])" by (auto simp: valid_link_def)
    from union_uf_keys[OF Cons.prems aS bS] obtain p1 where
      p1: "union_uf p (Some (fromId l)) (Some (toId l)) = Some p1" "uf_inv S p1"
      "\<forall>x\<in>S. rep p1 x = (if rep p x = rep p (Some (toId l)) then rep p (Some (fromId l)) else rep p x)"
      by blast
    from Cons.IH[OF p1(2)] obtain p' where
      p': "link_loop p1 ls = Some p'" "uf_inv S p'"
      "\<forall>x y. same_root S p' x y = conn (same_root S p1) S ls x y" by blast
    have "link_loop p (l # ls) = Some p'" using ne p1(1) p'(1) by simp
    moreover have "\<forall>x y. same_root S p' x y = conn (same_root S p) S (l # ls) x y"
      using p'(3) conn_after_union[OF True p1(3)] by simp
    ultimately show ?thesis using p'(2) by blast
  next
    case False
    have "link_loop p (l # ls) = link_loop p ls"
    proof (cases "fromId l = [] \<or> toId l = []")
      case True
      then show ?thesis by simp
    next
      case ne: False
      with False have "Some (fromId l) \<notin> S \<or> Some (toId l) \<notin> S" by (auto simp: valid_link_def)
      with Cons.prems have "p (Some (fromId l)) = None \<or> p (Some (toId l)) = None"
        by (auto simp: uf_inv_def)
      then have "union_uf p (Some (fromId l)) (Some (toId l)) = Some p" by (rule union_uf_dangling)
      with ne show ?thesis by simp
    qed
    with Cons.IH[OF Cons.prems] conn_skip_invalid[OF False] show ?thesis by simp
  qed
qed

subsection \<open>The tally of a list of moods\<close>

lemma map_set_keys:
  "map fst (map_set c k v) = (if k \<in> fst ` set c then map fst c else map fst c @ [k])"
  by (auto simp: map_set_def map_has_def split_beta)

lemma map_of_replace_other:
  "x \<noteq> k \<Longrightarrow> map_of (map (\<lambda>(k', v'). if k' = k then (k', v) else (k', v')) c) x = map_of c x"
  by (induction c) auto

lemma map_of_replace_key:
  "k \<in> fst ` set c \<Longrightarrow> map_of (map (\<lambda>(k', v'). if k' = k then (k', v) else (k', v')) c) k = Some v"
  by (induction c) auto

lemma map_of_map_set:
  "map_of (map_set c k v) = (map_of c)(k \<mapsto> v)"
proof (cases "map_has c k")
  case True
  then show ?thesis
    by (auto simp: map_set_def map_has_def fun_eq_iff map_of_replace_other map_of_replace_key)
next
  case False
  then have "map_of c k = None" by (simp add: map_has_def map_of_eq_None_iff)
  with False show ?thesis by (auto simp: map_set_def fun_eq_iff map_add_def split: option.splits)
qed

lemma tally_of_snoc: "tally_of (moods @ [m]) = count_mood (tally_of moods) m"
  by (simp add: tally_of_def)

lemma tally_of_props:
  "distinct (map fst (tally_of moods)) \<and> set (map fst (tally_of moods)) = set moods
   \<and> (\<forall>m\<in>set moods. map_of (tally_of moods) m = Some (count_list moods m))
   \<and> (\<forall>P. find P (map fst (tally_of moods)) = find P moods)"
proof (induction moods rule: rev_induct)
  case Nil
  then show ?case by (simp add: tally_of_def)
next
  case (snoc m moods)
  let ?c = "tally_of moods"
  from snoc have d: "distinct (map fst ?c)" and s: "set (map fst ?c) = set moods"
    and c: "\<forall>x\<in>set moods. map_of ?c x = Some (count_list moods x)"
    and f: "\<forall>P. find P (map fst ?c) = find P moods" by auto
  have k: "map fst (count_mood ?c m) = (if m \<in> set moods then map fst ?c else map fst ?c @ [m])"
    using s by (simp add: count_mood_def map_set_keys)
  have mo: "map_of (count_mood ?c m) = (map_of ?c)(m \<mapsto> count_or0 ?c m + 1)"
    by (simp add: count_mood_def map_of_map_set)
  have c0: "count_or0 ?c m = count_list moods m"
  proof (cases "m \<in> set moods")
    case True
    with c show ?thesis by (simp add: count_or0_def)
  next
    case False
    with s have "m \<notin> fst ` set ?c" by auto
    then have "map_of ?c m = None" by (simp add: map_of_eq_None_iff)
    with False show ?thesis by (simp add: count_or0_def)
  qed
  have 1: "distinct (map fst (tally_of (moods @ [m])))"
    using d s k by (auto simp: tally_of_snoc)
  have 2: "set (map fst (tally_of (moods @ [m]))) = set (moods @ [m])"
    using s k by (auto simp: tally_of_snoc)
  have 3: "\<forall>x\<in>set (moods @ [m]). map_of (tally_of (moods @ [m])) x = Some (count_list (moods @ [m]) x)"
    using c c0 mo by (auto simp: tally_of_snoc)
  have 4: "\<forall>P. find P (map fst (tally_of (moods @ [m]))) = find P (moods @ [m])"
  proof
    fix P
    have fa: "\<And>xs. find P (xs @ [m]) = (case find P xs of Some x \<Rightarrow> Some x | None \<Rightarrow> if P m then Some m else None)"
      by (induct_tac xs) auto
    show "find P (map fst (tally_of (moods @ [m]))) = find P (moods @ [m])"
    proof (cases "m \<in> set moods")
      case True
      then have "find P moods = None \<Longrightarrow> \<not> P m" by (auto simp: find_None_iff)
      with True f k show ?thesis by (auto simp: tally_of_snoc fa split: option.splits)
    next
      case False
      with f k show ?thesis by (simp add: tally_of_snoc fa)
    qed
  qed
  from 1 2 3 4 show ?case by blast
qed

lemma tally_of_entry:
  assumes "(m, c) \<in> set (tally_of moods)"
  shows "m \<in> set moods \<and> c = count_list moods m"
proof -
  from tally_of_props[of moods] have d: "distinct (map fst (tally_of moods))"
    and s: "set (map fst (tally_of moods)) = set moods"
    and c: "\<forall>x\<in>set moods. map_of (tally_of moods) x = Some (count_list moods x)" by auto
  from assms s have m: "m \<in> set moods" by force
  from d assms have "map_of (tally_of moods) m = Some c" by simp
  with c m show ?thesis by simp
qed

subsection \<open>The first greatest count\<close>

lemma top_mood_split:
  "cs \<noteq> [] \<Longrightarrow>
   \<exists>pre m c post. cs = pre @ (m, c) # post \<and> top_mood cs = (Some m, int c)
      \<and> (\<forall>e\<in>set pre. snd e < c) \<and> (\<forall>e\<in>set post. snd e \<le> c)"
proof (induction cs rule: rev_induct)
  case Nil
  then show ?case by simp
next
  case (snoc e cs)
  obtain m' c' where e: "e = (m', c')" by (cases e)
  show ?case
  proof (cases "cs = []")
    case True
    then have "top_mood (cs @ [e]) = (Some m', int c')" by (simp add: top_mood_def e)
    with True e show ?thesis by (intro exI[of _ "[]"] exI[of _ m'] exI[of _ c']) simp
  next
    case False
    from snoc.IH[OF False] obtain pre m c post where
      sp: "cs = pre @ (m, c) # post" "top_mood cs = (Some m, int c)"
      "\<forall>e\<in>set pre. snd e < c" "\<forall>e\<in>set post. snd e \<le> c" by blast
    have st: "top_mood (cs @ [e]) = (if int c' > int c then (Some m', int c') else (Some m, int c))"
      using sp(2) by (simp add: top_mood_def e)
    show ?thesis
    proof (cases "c' > c")
      case True
      have "\<forall>x\<in>set cs. snd x < c'" using sp True by auto
      with st True e show ?thesis
        by (intro exI[of _ cs] exI[of _ m'] exI[of _ c'] exI[of _ "[]"]) simp
    next
      case False
      with st sp e show ?thesis
        by (intro exI[of _ pre] exI[of _ m] exI[of _ c] exI[of _ "post @ [e]"]) auto
    qed
  qed
qed

lemma find_split: "\<forall>x\<in>set xs. \<not> P x \<Longrightarrow> P y \<Longrightarrow> find P (xs @ y # zs) = Some y"
  by (induction xs) auto

lemma top_mood_majority:
  assumes "moods \<noteq> []"
  shows "\<exists>L. fst (top_mood (tally_of moods)) = Some L \<and> majority_mood moods = Some L \<and> L \<in> set moods"
proof -
  let ?cs = "tally_of moods"
  let ?Q = "\<lambda>m. \<forall>M\<in>set moods. count_list moods M \<le> count_list moods m"
  from tally_of_props[of moods] have s: "set (map fst ?cs) = set moods"
    and f: "find ?Q (map fst ?cs) = find ?Q moods" by auto
  from s assms have "?cs \<noteq> []" by auto
  from top_mood_split[OF this] obtain pre L c post where
    sp: "?cs = pre @ (L, c) # post" "top_mood ?cs = (Some L, int c)"
    "\<forall>e\<in>set pre. snd e < c" "\<forall>e\<in>set post. snd e \<le> c" by blast
  have ent: "\<And>m n. (m, n) \<in> set ?cs \<Longrightarrow> m \<in> set moods \<and> n = count_list moods m"
    by (rule tally_of_entry)
  have L: "L \<in> set moods" "c = count_list moods L" using ent[of L c] sp(1) by auto
  have all: "\<forall>e\<in>set ?cs. snd e \<le> c" using sp by auto
  have QL: "?Q L"
  proof
    fix M assume "M \<in> set moods"
    with s obtain n where n: "(M, n) \<in> set ?cs" by force
    with ent have "n = count_list moods M" by blast
    with all n L show "count_list moods M \<le> count_list moods L" by force
  qed
  have nQ: "\<forall>x\<in>set (map fst pre). \<not> ?Q x"
  proof
    fix x assume "x \<in> set (map fst pre)"
    then obtain n where n: "(x, n) \<in> set pre" by auto
    then have "(x, n) \<in> set ?cs" using sp(1) by simp
    with ent have "n = count_list moods x" by blast
    moreover from n sp(3) have "n < c" by force
    ultimately have "count_list moods x < count_list moods L" using L by simp
    with L(1) show "\<not> ?Q x" by (auto simp: not_le)
  qed
  have "map fst ?cs = map fst pre @ L # map fst post" using sp(1) by simp
  with find_split[OF nQ QL] have "find ?Q (map fst ?cs) = Some L" by simp
  with f have "majority_mood moods = Some L" by (simp add: majority_mood_def)
  with sp(2) L show ?thesis by simp
qed

lemma normalizeMood_nonempty: "normalizeMood m \<noteq> []"
  by (auto simp: normalizeMood_def Let_def split: option.splits)

subsection \<open>The tally and labelling loops\<close>

lemma members_cong:
  assumes "\<forall>m\<in>set ms. id_truthy (cm_id m) \<longrightarrow> cm_id m \<in> S" "\<forall>x\<in>S. rep p' x = rep p x"
  shows "members p' r ms = members p r ms"
  unfolding members_def using assms by (intro filter_cong) auto

lemma tally_loop_spec:
  "uf_inv S p \<Longrightarrow> \<forall>m\<in>set ms. id_truthy (cm_id m) \<longrightarrow> cm_id m \<in> S \<Longrightarrow>
   \<exists>p' mc'. tally_loop p mc ms = Some (p', mc') \<and> uf_inv S p' \<and> (\<forall>x\<in>S. rep p' x = rep p x)
      \<and> (\<forall>r. mc' r = (if members p r ms = [] then mc r
                       else Some (foldl count_mood (case mc r of None \<Rightarrow> [] | Some c \<Rightarrow> c)
                                       (moods_of (members p r ms)))))"
proof (induction ms arbitrary: p mc)
  case Nil
  then show ?case by (simp add: members_def)
next
  case (Cons mem ms)
  from Cons.prems(2) have ids: "\<forall>m\<in>set ms. id_truthy (cm_id m) \<longrightarrow> cm_id m \<in> S" by simp
  show ?case
  proof (cases "id_truthy (cm_id mem)")
    case False
    then have mm: "\<And>r. members p r (mem # ms) = members p r ms" by (simp add: members_def)
    from False have t: "tally_loop p mc (mem # ms) = tally_loop p mc ms" by simp
    from Cons.IH[OF Cons.prems(1) ids, of mc] show ?thesis by (simp only: t mm)
  next
    case True
    with Cons.prems(2) have kS: "cm_id mem \<in> S" by simp
    let ?r0 = "rep p (cm_id mem)"
    let ?mood = "normalizeMood (cm_mood mem)"
    let ?counts = "case mc ?r0 of None \<Rightarrow> [] | Some c \<Rightarrow> c"
    let ?mc1 = "mc(?r0 \<mapsto> count_mood ?counts ?mood)"
    from find_uf_key[OF Cons.prems(1) kS] obtain p1 where
      p1: "find_uf p (cm_id mem) = Some (?r0, p1)" "uf_inv S p1" "\<forall>x\<in>S. rep p1 x = rep p x" by blast
    from Cons.IH[OF p1(2) ids, of ?mc1] obtain p' mc' where
      ih: "tally_loop p1 ?mc1 ms = Some (p', mc')" "uf_inv S p'" "\<forall>x\<in>S. rep p' x = rep p1 x"
        "\<forall>r. mc' r = (if members p1 r ms = [] then ?mc1 r
                       else Some (foldl count_mood (case ?mc1 r of None \<Rightarrow> [] | Some c \<Rightarrow> c)
                                       (moods_of (members p1 r ms))))" by blast
    have mem1: "members p1 r ms = members p r ms" for r using members_cong[OF ids p1(3)] .
    have run: "tally_loop p mc (mem # ms) = Some (p', mc')"
      using True p1(1) ih(1) by (simp add: Let_def)
    have reps: "\<forall>x\<in>S. rep p' x = rep p x" using ih(3) p1(3) by simp
    have "mc' r = (if members p r (mem # ms) = [] then mc r
                       else Some (foldl count_mood (case mc r of None \<Rightarrow> [] | Some c \<Rightarrow> c)
                                       (moods_of (members p r (mem # ms)))))" for r
    proof (cases "r = ?r0")
      case True
      then have m: "members p r (mem # ms) = mem # members p r ms"
        using \<open>id_truthy (cm_id mem)\<close> by (simp add: members_def)
      from ih(4) have "mc' r = (if members p r ms = [] then ?mc1 r
                       else Some (foldl count_mood (case ?mc1 r of None \<Rightarrow> [] | Some c \<Rightarrow> c)
                                       (moods_of (members p r ms))))" by (simp add: mem1)
      with True m show ?thesis by (simp add: moods_of_def)
    next
      case False
      then have m: "members p r (mem # ms) = members p r ms" by (auto simp: members_def)
      from ih(4) have "mc' r = (if members p r ms = [] then ?mc1 r
                       else Some (foldl count_mood (case ?mc1 r of None \<Rightarrow> [] | Some c \<Rightarrow> c)
                                       (moods_of (members p r ms))))" by (simp add: mem1)
      with False m show ?thesis by simp
    qed
    with run ih(2) reps show ?thesis by blast
  qed
qed

lemma label_loop_spec:
  "uf_inv S p \<Longrightarrow> \<forall>m\<in>set ms. id_truthy (cm_id m) \<longrightarrow> cm_id m \<in> S \<Longrightarrow>
   \<forall>k\<in>S. \<exists>cs L. mc (rep p k) = Some cs \<and> fst (top_mood cs) = Some L \<and> L \<noteq> [] \<and> lab k = L \<Longrightarrow>
   \<exists>p' lbl'. label_loop p mc lbl ms = Some (p', lbl')
      \<and> (\<forall>m\<in>set ms. id_truthy (cm_id m) \<longrightarrow> lbl' (cm_id m) = Some (lab (cm_id m)))
      \<and> (\<forall>k. k \<notin> memory_ids ms \<longrightarrow> lbl' k = lbl k)"
proof (induction ms arbitrary: p lbl)
  case Nil
  then show ?case by simp
next
  case (Cons mem ms)
  from Cons.prems(2) have ids: "\<forall>m\<in>set ms. id_truthy (cm_id m) \<longrightarrow> cm_id m \<in> S" by simp
  show ?case
  proof (cases "id_truthy (cm_id mem)")
    case False
    then have mi: "memory_ids (mem # ms) = memory_ids ms" by (simp add: memory_ids_def)
    from False have t: "label_loop p mc lbl (mem # ms) = label_loop p mc lbl ms" by simp
    from Cons.IH[OF Cons.prems(1) ids Cons.prems(3), of lbl] False show ?thesis
      by (simp only: t mi) auto
  next
    case True
    with Cons.prems(2) have kS: "cm_id mem \<in> S" by simp
    let ?k = "cm_id mem"
    from Cons.prems(3) kS obtain cs L where
      cs: "mc (rep p ?k) = Some cs" "fst (top_mood cs) = Some L" "L \<noteq> []" "lab ?k = L" by blast
    from find_uf_key[OF Cons.prems(1) kS] obtain p1 where
      p1: "find_uf p ?k = Some (rep p ?k, p1)" "uf_inv S p1" "\<forall>x\<in>S. rep p1 x = rep p x" by blast
    have pre1: "\<forall>k\<in>S. \<exists>cs L. mc (rep p1 k) = Some cs \<and> fst (top_mood cs) = Some L \<and> L \<noteq> [] \<and> lab k = L"
      using Cons.prems(3) p1(3) by simp
    from Cons.IH[OF p1(2) ids pre1, of "lbl(?k \<mapsto> L)"] obtain p' lbl' where
      ih: "label_loop p1 mc (lbl(?k \<mapsto> L)) ms = Some (p', lbl')"
        "\<forall>m\<in>set ms. id_truthy (cm_id m) \<longrightarrow> lbl' (cm_id m) = Some (lab (cm_id m))"
        "\<forall>k. k \<notin> memory_ids ms \<longrightarrow> lbl' k = (lbl(?k \<mapsto> L)) k" by blast
    have run: "label_loop p mc lbl (mem # ms) = Some (p', lbl')"
      using True p1(1) cs ih(1) by (simp add: Let_def)
    have head: "lbl' ?k = Some (lab ?k)"
    proof (cases "?k \<in> memory_ids ms")
      case True
      then obtain m where "m \<in> set ms" "id_truthy (cm_id m)" "cm_id m = ?k"
        by (auto simp: memory_ids_def)
      with ih(2) show ?thesis by metis
    next
      case False
      with ih(3) cs(4) show ?thesis by simp
    qed
    have rest: "\<forall>k. k \<notin> memory_ids (mem # ms) \<longrightarrow> lbl' k = lbl k"
      using ih(3) True by (auto simp: memory_ids_def)
    from run head ih(2) rest show ?thesis by auto
  qed
qed

subsection \<open>The resolver as a whole\<close>

lemma link_loop_append:
  "link_loop p (xs @ ys) = link_loop p xs \<bind> (\<lambda>p'. link_loop p' ys)"
  by (induction xs arbitrary: p) (auto split: bind_splits)

lemma same_root_init:
  "same_root (memory_ids ms) (init_parent ms) = (\<lambda>x y. x = y \<and> x \<in> memory_ids ms)"
  by (auto simp: same_root_def fun_eq_iff init_parent_rep)

lemma majority_mood_constant:
  assumes "moods \<noteq> []" "\<forall>x\<in>set moods. x = a"
  shows "majority_mood moods = Some a"
proof -
  from assms obtain rest where "moods = a # rest" by (cases moods) auto
  with assms(2) show ?thesis by (auto simp: majority_mood_def)
qed

text \<open>The resolver returns, and what it returns.\<close>

lemma buildClusterMap_spec:
  "\<exists>lbl. buildClusterMap ms ls = Some lbl
     \<and> (\<forall>m\<in>set ms. id_truthy (cm_id m) \<longrightarrow>
          lbl (cm_id m) = majority_mood (component_moods ms ls (cm_id m)) \<and> lbl (cm_id m) \<noteq> None)
     \<and> (\<forall>k. k \<notin> memory_ids ms \<longrightarrow> lbl k = None)"
proof -
  let ?S = "memory_ids ms"
  let ?p0 = "init_parent ms"
  have inv0: "uf_inv ?S ?p0" by (rule init_parent_inv)
  have ids: "\<forall>m\<in>set ms. id_truthy (cm_id m) \<longrightarrow> cm_id m \<in> ?S" by (auto simp: memory_ids_def)
  from link_loop_conn[OF inv0, of ls] obtain p1 where
    p1: "link_loop ?p0 ls = Some p1" "uf_inv ?S p1"
    "\<forall>x y. same_root ?S p1 x y = conn (same_root ?S ?p0) ?S ls x y" by blast
  have con: "\<And>x y. same_root ?S p1 x y = connected ms ls x y"
    using p1(3) by (simp add: connected_def same_root_init)
  from tally_loop_spec[OF p1(2) ids, of Map.empty] obtain p2 mc where
    p2: "tally_loop p1 Map.empty ms = Some (p2, mc)" "uf_inv ?S p2" "\<forall>x\<in>?S. rep p2 x = rep p1 x"
    "\<forall>r. mc r = (if members p1 r ms = [] then None
                  else Some (tally_of (moods_of (members p1 r ms))))"
    by (auto simp: tally_of_def)
  have comp: "\<And>k. k \<in> ?S \<Longrightarrow> moods_of (members p1 (rep p1 k) ms) = component_moods ms ls k"
  proof -
    fix k assume k: "k \<in> ?S"
    have "filter (\<lambda>m. id_truthy (cm_id m) \<and> rep p1 (cm_id m) = rep p1 k) ms
        = filter (\<lambda>m. id_truthy (cm_id m) \<and> connected ms ls k (cm_id m)) ms"
    proof (intro filter_cong refl)
      fix m assume "m \<in> set ms"
      with ids k con[of k "cm_id m"]
      show "(id_truthy (cm_id m) \<and> rep p1 (cm_id m) = rep p1 k)
          = (id_truthy (cm_id m) \<and> connected ms ls k (cm_id m))"
        by (auto simp: same_root_def)
    qed
    then show "moods_of (members p1 (rep p1 k) ms) = component_moods ms ls k"
      by (simp add: moods_of_def members_def component_moods_def)
  qed
  have nonempty: "\<And>k. k \<in> ?S \<Longrightarrow> members p1 (rep p1 k) ms \<noteq> []"
  proof -
    fix k assume "k \<in> ?S"
    then obtain m where "m \<in> set ms" "id_truthy (cm_id m)" "cm_id m = k" by (auto simp: memory_ids_def)
    then have "m \<in> set (members p1 (rep p1 k) ms)" by (simp add: members_def)
    then show "members p1 (rep p1 k) ms \<noteq> []" by auto
  qed
  define lab where "lab k = (case majority_mood (component_moods ms ls k) of Some L \<Rightarrow> L | None \<Rightarrow> [])" for k
  have pre: "\<forall>k\<in>?S. \<exists>cs L. mc (rep p2 k) = Some cs \<and> fst (top_mood cs) = Some L \<and> L \<noteq> [] \<and> lab k = L"
  proof
    fix k assume k: "k \<in> ?S"
    let ?moods = "moods_of (members p1 (rep p1 k) ms)"
    from nonempty[OF k] have ne: "?moods \<noteq> []" by (simp add: moods_of_def)
    from top_mood_majority[OF ne] obtain L where
      L: "fst (top_mood (tally_of ?moods)) = Some L" "majority_mood ?moods = Some L" "L \<in> set ?moods" by blast
    from L(3) have "L \<noteq> []" using normalizeMood_nonempty by (auto simp: moods_of_def)
    moreover have "mc (rep p2 k) = Some (tally_of ?moods)" using p2(3,4) k nonempty[OF k] by simp
    moreover have "lab k = L" using L(2) comp[OF k] by (simp add: lab_def)
    ultimately show "\<exists>cs L. mc (rep p2 k) = Some cs \<and> fst (top_mood cs) = Some L \<and> L \<noteq> [] \<and> lab k = L"
      using L(1) by blast
  qed
  from label_loop_spec[OF p2(2) ids pre, of Map.empty] obtain p3 lbl where
    p3: "label_loop p2 mc Map.empty ms = Some (p3, lbl)"
    "\<forall>m\<in>set ms. id_truthy (cm_id m) \<longrightarrow> lbl (cm_id m) = Some (lab (cm_id m))"
    "\<forall>k. k \<notin> ?S \<longrightarrow> lbl k = None" by auto
  have run: "buildClusterMap ms ls = Some lbl"
    using p1(1) p2(1) p3(1) by (simp add: buildClusterMap_def)
  have "\<forall>m\<in>set ms. id_truthy (cm_id m) \<longrightarrow>
          lbl (cm_id m) = majority_mood (component_moods ms ls (cm_id m)) \<and> lbl (cm_id m) \<noteq> None"
  proof (intro ballI impI)
    fix m assume m: "m \<in> set ms" "id_truthy (cm_id m)"
    then have k: "cm_id m \<in> ?S" using ids by simp
    let ?moods = "moods_of (members p1 (rep p1 (cm_id m)) ms)"
    from nonempty[OF k] have ne: "?moods \<noteq> []" by (simp add: moods_of_def)
    from top_mood_majority[OF ne] obtain L where "majority_mood ?moods = Some L" by blast
    then have "majority_mood (component_moods ms ls (cm_id m)) = Some (lab (cm_id m))"
      using comp[OF k] by (simp add: lab_def)
    with p3(2) m
    show "lbl (cm_id m) = majority_mood (component_moods ms ls (cm_id m)) \<and> lbl (cm_id m) \<noteq> None"
      by simp
  qed
  with run p3(3) show ?thesis by blast
qed

lemma connected_refl: "k \<in> memory_ids ms \<Longrightarrow> connected ms ls k k"
  unfolding connected_def by (rule conn.base) simp

lemma abc_eval:
  "case buildClusterMap abc_memories abc_links of
     Some f \<Rightarrow> f (Some ''A'') = Some ''Joy'' \<and> f (Some ''B'') = Some ''Joy'' \<and> f (Some ''C'') = Some ''Joy''
   | None \<Rightarrow> False"
  by code_simp

text \<open>
  Claim C8. For every memory list and link list the resolver returns a label map, and for
  every memory with an id: its label is the majority mood of its component, that is, the
  first mood, in the order of the memory list, with the greatest count among the memories
  connected to it by links between listed memories; and when no other listed memory is
  connected to it, the label is its own (normalised) mood. On the path A-B-C with moods
  Joy, Joy, Grief all three labels are Joy.
\<close>

theorem cluster_labels_majority:
  "(\<exists>lbl. buildClusterMap memories links = Some lbl
     \<and> (\<forall>m\<in>set memories. id_truthy (cm_id m) \<longrightarrow>
          lbl (cm_id m) = majority_mood (component_moods memories links (cm_id m))
          \<and> ((\<forall>m'\<in>set memories. id_truthy (cm_id m') \<and> connected memories links (cm_id m) (cm_id m')
                 \<longrightarrow> m' = m)
              \<longrightarrow> lbl (cm_id m) = Some (normalizeMood (cm_mood m)))))
   \<and> (\<exists>lbl. buildClusterMap abc_memories abc_links = Some lbl
          \<and> lbl (Some ''A'') = Some ''Joy'' \<and> lbl (Some ''B'') = Some ''Joy''
          \<and> lbl (Some ''C'') = Some ''Joy'')"
proof -
  from buildClusterMap_spec[of memories links] obtain lbl where
    l: "buildClusterMap memories links = Some lbl"
    "\<forall>m\<in>set memories. id_truthy (cm_id m) \<longrightarrow>
          lbl (cm_id m) = majority_mood (component_moods memories links (cm_id m))" by blast
  have "\<forall>m\<in>set memories. id_truthy (cm_id m) \<longrightarrow>
          lbl (cm_id m) = majority_mood (component_moods memories links (cm_id m))
          \<and> ((\<forall>m'\<in>set memories. id_truthy (cm_id m') \<and> connected memories links (cm_id m) (cm_id m')
                 \<longrightarrow> m' = m)
              \<longrightarrow> lbl (cm_id m) = Some (normalizeMood (cm_mood m)))"
  proof (intro ballI impI conjI)
    fix m assume m: "m \<in> set memories" "id_truthy (cm_id m)"
    with l(2) show "lbl (cm_id m) = majority_mood (component_moods memories links (cm_id m))" by simp
    assume iso: "\<forall>m'\<in>set memories. id_truthy (cm_id m') \<and> connected memories links (cm_id m) (cm_id m')
                 \<longrightarrow> m' = m"
    let ?moods = "component_moods memories links (cm_id m)"
    from m have "cm_id m \<in> memory_ids memories" by (auto simp: memory_ids_def)
    then have "connected memories links (cm_id m) (cm_id m)" by (rule connected_refl)
    with m have "normalizeMood (cm_mood m) \<in> set ?moods" by (auto simp: component_moods_def)
    then have ne: "?moods \<noteq> []" by auto
    have "\<forall>x\<in>set ?moods. x = normalizeMood (cm_mood m)"
      using iso by (auto simp: component_moods_def)
    from majority_mood_constant[OF ne this] l(2) m
    show "lbl (cm_id m) = Some (normalizeMood (cm_mood m))" by simp
  qed
  with l(1) have general: "\<exists>lbl. buildClusterMap memories links = Some lbl
     \<and> (\<forall>m\<in>set memories. id_truthy (cm_id m) \<longrightarrow>
          lbl (cm_id m) = majority_mood (component_moods memories links (cm_id m))
          \<and> ((\<forall>m'\<in>set memories. id_truthy (cm_id m') \<and> connected memories links (cm_id m) (cm_id m')
                 \<longrightarrow> m' = m)
              \<longrightarrow> lbl (cm_id m) = Some (normalizeMood (cm_mood m))))" by blast
  have "\<exists>lbl. buildClusterMap abc_memories abc_links = Some lbl
          \<and> lbl (Some ''A'') = Some ''Joy'' \<and> lbl (Some ''B'') = Some ''Joy''
          \<and> lbl (Some ''C'') = Some ''Joy''"
    using abc_eval by (cases "buildClusterMap abc_memories abc_links") auto
  with general show ?thesis by blast
qed

lemma path_eval:
  "case buildClusterMap path_memories path_links of
     Some f \<Rightarrow> map f [Some ''A'', Some ''B'', Some ''C'', Some ''D'', Some ''Z'']
               = [Some ''Joy'', Some ''Joy'', Some ''Joy'', Some ''Awe'', None]
   | None \<Rightarrow> False"
  by code_simp

lemma path_isolated:
  "connected path_memories path_links x y \<Longrightarrow> (x = Some ''D'') = (y = Some ''D'')"
  unfolding connected_def
  by (induction rule: conn.induct) (auto simp: path_links_def plain_link_def valid_link_def)

theorem cluster_labels_majority_witness:
  "\<lparr>cm_id = Some ''D'', cm_mood = Some '' Awe ''\<rparr> \<in> set path_memories
   \<and> id_truthy (Some ''D'')
   \<and> \<not> connected path_memories path_links (Some ''D'') (Some ''A'')
   \<and> \<not> connected path_memories path_links (Some ''D'') (Some ''B'')
   \<and> \<not> connected path_memories path_links (Some ''D'') (Some ''C'')
   \<and> (\<exists>lbl. buildClusterMap path_memories path_links = Some lbl
          \<and> lbl (Some ''D'') = Some ''Awe''
          \<and> lbl (Some ''A'') = majority_mood (component_moods path_memories path_links (Some ''A''))
          \<and> lbl (Some ''A'') = Some ''Joy'')"
proof -
  let ?d = "\<lparr>cm_id = Some ''D'', cm_mood = Some '' Awe ''\<rparr>"
  let ?a = "\<lparr>cm_id = Some ''A'', cm_mood = Some ''Joy''\<rparr>"
  have dm: "?d \<in> set path_memories" and am: "?a \<in> set path_memories"
    by (simp_all add: path_memories_def)
  have dt: "id_truthy (Some ''D'')" and at: "id_truthy (Some ''A'')" by (simp_all add: id_truthy_def)
  have iso: "\<forall>m'\<in>set path_memories.
         id_truthy (cm_id m') \<and> connected path_memories path_links (Some ''D'') (cm_id m') \<longrightarrow> m' = ?d"
    using path_isolated[of "Some ''D''"] by (auto simp: path_memories_def)
  from cluster_labels_majority[of path_memories path_links] obtain lbl where
    l: "buildClusterMap path_memories path_links = Some lbl"
    and all: "\<forall>m\<in>set path_memories. id_truthy (cm_id m) \<longrightarrow>
          lbl (cm_id m) = majority_mood (component_moods path_memories path_links (cm_id m))
          \<and> ((\<forall>m'\<in>set path_memories. id_truthy (cm_id m') \<and> connected path_memories path_links (cm_id m) (cm_id m')
                 \<longrightarrow> m' = m)
              \<longrightarrow> lbl (cm_id m) = Some (normalizeMood (cm_mood m)))" by blast
  from all dm dt iso have "lbl (Some ''D'') = Some (normalizeMood (Some '' Awe ''))" by fastforce
  moreover have "normalizeMood (Some '' Awe '') = ''Awe''" by code_simp
  ultimately have d: "lbl (Some ''D'') = Some ''Awe''" by simp
  from all am at
  have a: "lbl (Some ''A'') = majority_mood (component_moods path_memories path_links (Some ''A''))"
    by fastforce
  from path_eval l have "lbl (Some ''A'') = Some ''Joy''" by simp
  moreover have "\<not> connected path_memories path_links (Some ''D'') (Some ''A'')"
    "\<not> connected path_memories path_links (Some ''D'') (Some ''B'')"
    "\<not> connected path_memories path_links (Some ''D'') (Some ''C'')"
    using path_isolated[of "Some ''D''"] by auto
  ultimately show ?thesis using dm dt l d a by blast
qed

text \<open>
  Claim C10. For every memory list and link list the resolver returns a label map, in
  which every listed memory with an id has a label. \<open>find\<close> on an id that is not a key of
  the parent map returns that id and leaves the map as it is; \<open>union\<close> with such an id on
  either side leaves the map as it is; and a link with an end that is empty or is not the
  id of a listed memory can be dropped from the link list without changing the result.
\<close>

theorem cluster_map_total:
  "(\<exists>lbl. buildClusterMap memories links = Some lbl
       \<and> (\<forall>m\<in>set memories. id_truthy (cm_id m) \<longrightarrow> lbl (cm_id m) \<noteq> None))
   \<and> (p k = None \<longrightarrow> find_uf p k = Some (k, p))
   \<and> (p a = None \<or> p b = None \<longrightarrow> union_uf p a b = Some p)
   \<and> (\<not> valid_link (memory_ids memories) l \<longrightarrow>
        buildClusterMap memories (ls1 @ l # ls2) = buildClusterMap memories (ls1 @ ls2))"
proof (intro conjI impI)
  from buildClusterMap_spec[of memories links]
  show "\<exists>lbl. buildClusterMap memories links = Some lbl
       \<and> (\<forall>m\<in>set memories. id_truthy (cm_id m) \<longrightarrow> lbl (cm_id m) \<noteq> None)" by blast
next
  assume "p k = None"
  then show "find_uf p k = Some (k, p)" by (rule find_uf_absent)
next
  assume "p a = None \<or> p b = None"
  then show "union_uf p a b = Some p" by (rule union_uf_dangling)
next
  assume nv: "\<not> valid_link (memory_ids memories) l"
  let ?S = "memory_ids memories"
  from link_loop_conn[OF init_parent_inv, of memories ls1] obtain p1 where
    p1: "link_loop (init_parent memories) ls1 = Some p1" "uf_inv ?S p1" by blast
  have "link_loop p1 (l # ls2) = link_loop p1 ls2"
  proof (cases "fromId l = [] \<or> toId l = []")
    case True
    then show ?thesis by simp
  next
    case False
    with nv have "Some (fromId l) \<notin> ?S \<or> Some (toId l) \<notin> ?S" by (auto simp: valid_link_def)
    with p1(2) have "p1 (Some (fromId l)) = None \<or> p1 (Some (toId l)) = None"
      by (auto simp: uf_inv_def)
    then have "union_uf p1 (Some (fromId l)) (Some (toId l)) = Some p1" by (rule union_uf_dangling)
    with False show ?thesis by simp
  qed
  with p1(1) have "link_loop (init_parent memories) (ls1 @ l # ls2)
      = link_loop (init_parent memories) (ls1 @ ls2)"
    by (simp add: link_loop_append)
  then show "buildClusterMap memories (ls1 @ l # ls2) = buildClusterMap memories (ls1 @ ls2)"
    by (simp add: buildClusterMap_def)
qed

theorem cluster_map_total_witness:
  "Map.empty (Some ''Z'') = (None :: jid option)
   \<and> find_uf Map.empty (Some ''Z'') = Some (Some ''Z'', Map.empty)
   \<and> union_uf Map.empty (Some ''C'') (Some ''Z'') = Some Map.empty
   \<and> \<not> valid_link (memory_ids path_memories) (plain_link ''C'' ''Z'')
   \<and> buildClusterMap path_memories path_links
       = buildClusterMap path_memories [plain_link ''A'' ''B'', plain_link ''B'' ''C'']
   \<and> \<lparr>cm_id = Some ''D'', cm_mood = Some '' Awe ''\<rparr> \<in> set path_memories
   \<and> (\<exists>lbl. buildClusterMap path_memories path_links = Some lbl \<and> lbl (Some ''D'') \<noteq> None)"
proof -
  have nv: "\<not> valid_link (memory_ids path_memories) (plain_link ''C'' ''Z'')"
    by (simp add: valid_link_def memory_ids_def path_memories_def plain_link_def id_truthy_def)
  have dm: "\<lparr>cm_id = Some ''D'', cm_mood = Some '' Awe ''\<rparr> \<in> set path_memories"
    by (simp add: path_memories_def)
  have dt: "id_truthy (cm_id \<lparr>cm_id = Some ''D'', cm_mood = Some '' Awe ''\<rparr>)"
    by (simp add: id_truthy_def)
  from cluster_map_total[of path_memories path_links Map.empty "Some ''Z''" "Some ''C''" "Some ''Z''"
      "plain_link ''C'' ''Z''" "[plain_link ''A'' ''B'', plain_link ''B'' ''C'']" "[]"] nv dm dt
  show ?thesis by (fastforce simp: path_links_def)
qed

end
